theory Spec2Isabelle
  imports Complex_Main "HOL-Library.Product_Lexorder" "HOL-Library.Multiset"
begin

unbundle bit_operations_syntax

section \<open>Data model\<close>

text \<open>
  Python exceptions that the modelled code can raise. \<open>StorageError\<close> stands for any
  exception raised by the SQLAlchemy session (the relational engine is outside the
  repository); \<open>ValueError\<close> and \<open>TypeError\<close> are what the helpers of \<open>request_data\<close> may
  raise.
\<close>

datatype exn = StorageError | IndexError | KeyError | ZeroDivisionError | ValueError | TypeError

text \<open>The constants of \<open>frontera.core.components.States\<close>.\<close>

definition NOT_CRAWLED :: int where "NOT_CRAWLED = 0"
definition QUEUED :: int where "QUEUED = 1"
definition CRAWLED :: int where "CRAWLED = 2"
definition ERROR :: int where "ERROR = 3"

text \<open>
  \<open>Request.meta\<close> is a dictionary. The keys the code reads or writes are fields of
  their own, each absent (\<open>None\<close>) or present; every other key is kept in \<open>m_other\<close>.
  Timestamps are whole seconds, so the revisit interval and the dequeue delay (Python
  \<open>timedelta.total_seconds()\<close>) are taken as whole numbers of seconds.
\<close>

record meta =
  m_state :: "int option"
  m_crawl_at :: "int option"
  m_queue_id :: "int option"
  m_fingerprint :: "string option"
  m_other :: "(string \<times> string) list"

record request =
  r_url :: string
  r_method :: string
  r_meta :: meta
  r_headers :: "(string \<times> string) list"
  r_cookies :: "(string \<times> string) list"

text \<open>
  A row of the table \<open>revisiting_queue\<close>, and also a model object not yet saved: its
  \<open>q_id\<close> is \<open>None\<close> until the storage assigns one. Scores are only compared, never
  computed with, so a real number stands for the float.
\<close>

record queue_record =
  q_id :: "int option"
  q_fingerprint :: string
  q_score :: real
  q_url :: string
  q_meta :: meta
  q_headers :: "(string \<times> string) list"
  q_cookies :: "(string \<times> string) list"
  q_method :: "string option"
  q_partition_id :: int
  q_host_crc32 :: int
  q_created_at :: int
  q_crawl_at :: int

section \<open>Partitioner (frontera/core/components.py)\<close>

definition HASH_MASK :: int where "HASH_MASK = 2 ^ 31 - 1"

text \<open>
  \<open>Partitioner.partition(key, partitions=None)\<close>. The hash function is the subclass's
  (the base class raises \<open>NotImplementedError\<close>), so it is a parameter. \<open>not partitions\<close>
  holds for \<open>None\<close> and for the empty list. Indexing an empty list raises \<open>IndexError\<close>,
  a modulus of zero raises \<open>ZeroDivisionError\<close>.
\<close>

definition partition_index :: "('k \<Rightarrow> int) \<Rightarrow> 'k \<Rightarrow> nat \<Rightarrow> nat" where
  "partition_index hash k n = nat ((hash k AND HASH_MASK) mod int n)"

definition Partitioner_partition ::
  "('k \<Rightarrow> int) \<Rightarrow> int list \<Rightarrow> 'k option \<Rightarrow> int list option \<Rightarrow> exn + int" where
  "Partitioner_partition hash self_partitions key partitions =
     (let ps = (case partitions of
                  None \<Rightarrow> self_partitions
                | Some p \<Rightarrow> if p = [] then self_partitions else p)
      in case key of
           None \<Rightarrow> (case ps of [] \<Rightarrow> Inl IndexError | p # _ \<Rightarrow> Inr p)
         | Some k \<Rightarrow>
             if length ps = 0 then Inl ZeroDivisionError
             else Inr (ps ! partition_index hash k (length ps)))"

section \<open>Feed stream back-pressure (frontera/contrib/messagebus/kafkabus.py)\<close>

text \<open>
  \<open>SpiderFeedStream.available_partitions\<close>. The dictionary of lags comes from
  \<open>OffsetsFetcherAsync.get()\<close> of the module \<open>frontera.contrib.messagebus.kafka.async\<close>;
  it is the parameter \<open>lags\<close>, the list of (partition, lag) items in the dictionary's
  iteration order.
\<close>

fun available_partitions :: "(int \<times> int) list \<Rightarrow> int \<Rightarrow> int list" where
  "available_partitions [] max_next_requests = []"
| "available_partitions ((pid, lag) # lags) max_next_requests =
     (if lag < max_next_requests
      then pid # available_partitions lags max_next_requests
      else available_partitions lags max_next_requests)"

section \<open>The SQLAlchemy session\<close>

text \<open>
  The session is an opaque transactional unit of work. \<open>s_rows\<close> is the table as the open
  transaction sees it, \<open>s_committed\<close> the table as committed. Every statement sent to the
  storage may raise: statement number \<open>n\<close> of the run fails iff \<open>n\<close> is listed in
  \<open>s_fail_ops\<close>. \<open>s_clock\<close> is the UTC clock in whole seconds (\<open>utcnow_timestamp()\<close>) and
  \<open>s_micros\<close> its sub-second part in microseconds; the clock moves only in \<open>sleep\<close>.
  \<open>s_trace\<close> records what the code does to logger, session and clock, and each call of a
  function wrapped by \<open>retry_and_rollback\<close>.
\<close>

datatype event =
    Attempt
  | LogException exn
  | LogInfo int
  | LogError string string
  | Rollback
  | Sleep nat

record rq_state =
  s_rows :: "queue_record list"
  s_committed :: "queue_record list"
  s_clock :: int
  s_micros :: int
  s_ops :: nat
  s_fail_ops :: "nat list"
  s_trace :: "event list"

definition emit :: "event \<Rightarrow> rq_state \<Rightarrow> rq_state" where
  "emit ev s = s\<lparr>s_trace := s_trace s @ [ev]\<rparr>"

definition storage_op :: "rq_state \<Rightarrow> bool \<times> rq_state" where
  "storage_op s = (s_ops s \<in> set (s_fail_ops s), s\<lparr>s_ops := Suc (s_ops s)\<rparr>)"

definition row_id :: "queue_record \<Rightarrow> int" where
  "row_id r = (case q_id r of None \<Rightarrow> 0 | Some i \<Rightarrow> i)"

text \<open>The storage assigns ids: a new row gets an id above every id in the table.\<close>

definition fresh_id :: "queue_record list \<Rightarrow> int" where
  "fresh_id rs = 1 + foldr max (map row_id rs) 0"

text \<open>
  \<open>Session.bulk_save_objects\<close>: an object without identity is inserted, an object loaded
  from the table is written back to the row of its primary key.
\<close>

definition save_object :: "queue_record \<Rightarrow> queue_record list \<Rightarrow> queue_record list" where
  "save_object obj rs =
     (case q_id obj of
        None \<Rightarrow> rs @ [obj\<lparr>q_id := Some (fresh_id rs)\<rparr>]
      | Some i \<Rightarrow> map (\<lambda>r. if q_id r = Some i then obj else r) rs)"

definition bulk_save_objects ::
  "queue_record list \<Rightarrow> rq_state \<Rightarrow> (exn + unit) \<times> rq_state" where
  "bulk_save_objects objs s =
     (case storage_op s of
        (True, s1) \<Rightarrow> (Inl StorageError, s1)
      | (False, s1) \<Rightarrow> (Inr (), s1\<lparr>s_rows := fold save_object objs (s_rows s1)\<rparr>))"

definition session_commit :: "rq_state \<Rightarrow> (exn + unit) \<times> rq_state" where
  "session_commit s =
     (case storage_op s of
        (True, s1) \<Rightarrow> (Inl StorageError, s1)
      | (False, s1) \<Rightarrow> (Inr (), s1\<lparr>s_committed := s_rows s1\<rparr>))"

definition session_rollback :: "rq_state \<Rightarrow> rq_state" where
  "session_rollback s = emit Rollback (s\<lparr>s_rows := s_committed s\<rparr>)"

text \<open>
  \<open>session.query(model).filter_by(id=queue_id).update(data)\<close>: every row with that id
  takes the columns of \<open>data\<close> and keeps its id.
\<close>

definition query_update ::
  "int \<Rightarrow> queue_record \<Rightarrow> rq_state \<Rightarrow> (exn + unit) \<times> rq_state" where
  "query_update queue_id data s =
     (case storage_op s of
        (True, s1) \<Rightarrow> (Inl StorageError, s1)
      | (False, s1) \<Rightarrow>
          (Inr (), s1\<lparr>s_rows :=
             map (\<lambda>r. if q_id r = Some queue_id then data\<lparr>q_id := q_id r\<rparr> else r)
               (s_rows s1)\<rparr>))"

definition sleep :: "nat \<Rightarrow> rq_state \<Rightarrow> rq_state" where
  "sleep n s = emit (Sleep n) (s\<lparr>s_clock := s_clock s + int n\<rparr>)"

section \<open>retry_and_rollback (frontera/contrib/backends/sqlalchemy/revisiting.py)\<close>

text \<open>
  The decorator's loop. The wrapped function takes its arguments \<open>m\<close> (Python objects it
  may mutate, returned as they are after the call) and the queue's state. \<open>func_wrapper\<close>
  is the body of \<open>while True\<close> with the counter \<open>tries\<close>.
\<close>

function func_wrapper ::
  "('m \<Rightarrow> rq_state \<Rightarrow> (exn + 'a) \<times> 'm \<times> rq_state) \<Rightarrow> int \<Rightarrow> 'm \<Rightarrow> rq_state
     \<Rightarrow> (exn + 'a) \<times> 'm \<times> rq_state" where
  "func_wrapper func tries m s =
     (case func m (emit Attempt s) of
        (Inr v, m1, s1) \<Rightarrow> (Inr v, m1, s1)
      | (Inl exc, m1, s1) \<Rightarrow>
          (let s2 = sleep 5 (session_rollback (emit (LogException exc) s1));
               tries' = tries - 1
           in if tries' > 0
              then func_wrapper func tries' m1 (emit (LogInfo tries') s2)
              else (Inl exc, m1, s2)))"
  by pat_completeness auto
termination
  by (relation "measure (\<lambda>(func, tries, m, s). nat tries)") auto

definition retry_and_rollback ::
  "('m \<Rightarrow> rq_state \<Rightarrow> (exn + 'a) \<times> 'm \<times> rq_state) \<Rightarrow> 'm \<Rightarrow> rq_state
     \<Rightarrow> (exn + 'a) \<times> 'm \<times> rq_state" where
  "retry_and_rollback func m s = func_wrapper func 5 m s"

section \<open>RevisitingQueue (frontera/contrib/backends/sqlalchemy/revisiting.py)\<close>

text \<open>
  What a queue is built with. The partitioner's list of partitions is \<open>c_partitions\<close>.
  Its \<open>hash\<close> and \<open>get_key\<close> are the subclass's (\<open>Crc32NamePartitioner\<close>), and
  \<open>parse_domain_from_url_fast\<close> (of which only the hostname is used) and \<open>get_crc32\<close> are
  helpers of \<open>frontera.utils\<close>: the four are parameters. \<open>get_key\<close>, the URL parser and
  \<open>get_crc32\<close> are called by \<open>request_data\<close> outside any \<open>try\<close>, so each of them returns a
  value or raises. \<open>c_dequeued_delay\<close> is \<open>dequeued_delay.total_seconds()\<close>.
\<close>

record 'k rq_conf =
  c_partitions :: "int list"
  c_hash :: "'k \<Rightarrow> int"
  c_get_key :: "request \<Rightarrow> exn + 'k option"
  c_hostname :: "string \<Rightarrow> exn + string option"
  c_get_crc32 :: "string \<Rightarrow> exn + int"
  c_dequeued_delay :: int

text \<open>
  \<open>query_next_requests\<close>: the rows of the partition with \<open>crawl_at <= utcnow_timestamp()\<close>,
  ordered by score descending, then \<open>crawl_at\<close> ascending, at most \<open>max_n_requests\<close> of
  them. SQL leaves the order of rows equal in both columns open; here they keep the
  table's order.
\<close>

definition eligible :: "int \<Rightarrow> int \<Rightarrow> queue_record \<Rightarrow> bool" where
  "eligible now partition_id r \<longleftrightarrow> q_crawl_at r \<le> now \<and> q_partition_id r = partition_id"

definition order_key :: "queue_record \<Rightarrow> real \<times> int" where
  "order_key r = (- q_score r, q_crawl_at r)"

definition select_rows :: "int \<Rightarrow> nat \<Rightarrow> int \<Rightarrow> queue_record list \<Rightarrow> queue_record list" where
  "select_rows now max_n_requests partition_id rs =
     take max_n_requests (sort_key order_key (filter (eligible now partition_id) rs))"

definition query_next_requests ::
  "nat \<Rightarrow> int \<Rightarrow> rq_state \<Rightarrow> (exn + queue_record list) \<times> rq_state" where
  "query_next_requests max_n_requests partition_id s =
     (case storage_op s of
        (True, s1) \<Rightarrow> (Inl StorageError, s1)
      | (False, s1) \<Rightarrow>
          (Inr (select_rows (s_clock s1) max_n_requests partition_id (s_rows s1)), s1))"

definition request_from_record :: "queue_record \<Rightarrow> request" where
  "request_from_record item =
     (let method = (case q_method item of
                      None \<Rightarrow> ''GET''
                    | Some m \<Rightarrow> if m = [] then ''GET'' else m);
          meta = (q_meta item)\<lparr>m_queue_id := q_id item\<rparr>
      in \<lparr>r_url = q_url item, r_method = method, r_meta = meta,
          r_headers = q_headers item, r_cookies = q_cookies item\<rparr>)"

text \<open>The \<open>for\<close> loop of \<open>get_next_requests\<close> over the rows the query returned.\<close>

fun release_loop ::
  "'k rq_conf \<Rightarrow> int \<Rightarrow> queue_record list \<Rightarrow> request list \<Rightarrow> queue_record list
     \<Rightarrow> request list \<times> queue_record list" where
  "release_loop c now [] results to_save = (results, to_save)"
| "release_loop c now (item # items) results to_save =
     release_loop c now items
       (results @ [request_from_record item])
       (to_save @ [item\<lparr>q_crawl_at := now + c_dequeued_delay c\<rparr>])"

definition on_exception :: "exn \<Rightarrow> rq_state \<Rightarrow> rq_state" where
  "on_exception exc s = session_rollback (emit (LogException exc) s)"

definition get_next_requests ::
  "'k rq_conf \<Rightarrow> nat \<Rightarrow> int \<Rightarrow> rq_state \<Rightarrow> request list \<times> rq_state" where
  "get_next_requests c max_n_requests partition_id s =
     (case query_next_requests max_n_requests partition_id s of
        (Inl exc, s1) \<Rightarrow> ([], on_exception exc s1)
      | (Inr items, s1) \<Rightarrow>
          (case release_loop c (s_clock s1) items [] [] of
             (results, to_save) \<Rightarrow>
               (case bulk_save_objects to_save s1 of
                  (Inl exc, s2) \<Rightarrow> (results, on_exception exc s2)
                | (Inr _, s2) \<Rightarrow>
                    (case session_commit s2 of
                       (Inl exc, s3) \<Rightarrow> (results, on_exception exc s3)
                     | (Inr _, s3) \<Rightarrow> (results, s3)))))"

text \<open>
  \<open>request_data\<close>, line by line: the key (line 109), the hostname of the URL (line 110),
  its checksum (line 111, 0 for \<open>None\<close> and for the empty string), the partition (lines
  112 to 116) and the row (lines 117 to 122). An exception of a helper leaves the
  function at that line. \<open>partitions[0]\<close> raises \<open>IndexError\<close> on an empty list; the error
  line of the logger goes to the trace.
\<close>

definition request_data ::
  "'k rq_conf \<Rightarrow> string \<Rightarrow> real \<Rightarrow> request \<Rightarrow> rq_state \<Rightarrow> (exn + queue_record) \<times> rq_state" where
  "request_data c fprint score request s =
     (case c_get_key c request of
        Inl exc \<Rightarrow> (Inl exc, s)
      | Inr key \<Rightarrow>
          (case c_hostname c (r_url request) of
             Inl exc \<Rightarrow> (Inl exc, s)
           | Inr hostname \<Rightarrow>
               (case (case hostname of
                        None \<Rightarrow> Inr 0
                      | Some h \<Rightarrow> if h = [] then Inr 0 else c_get_crc32 c h) of
                  Inl exc \<Rightarrow> (Inl exc, s)
                | Inr host_crc32 \<Rightarrow>
                    (case (case key of
                             None \<Rightarrow>
                               (case c_partitions c of
                                  [] \<Rightarrow> Inl IndexError
                                | p # _ \<Rightarrow> Inr p,
                                emit (LogError (r_url request) fprint) s)
                           | Some k \<Rightarrow>
                               (Partitioner_partition (c_hash c) (c_partitions c) key None,
                                s)) of
                       (Inl exc, s1) \<Rightarrow> (Inl exc, s1)
                     | (Inr partition_id, s1) \<Rightarrow>
                         (let schedule_at = (case m_crawl_at (r_meta request) of
                                               Some t \<Rightarrow> t
                                             | None \<Rightarrow> s_clock s1)
                          in (Inr \<lparr>q_id = None, q_fingerprint = fprint, q_score = score,
                                   q_url = r_url request, q_meta = r_meta request,
                                   q_headers = r_headers request,
                                   q_cookies = r_cookies request,
                                   q_method = Some (r_method request),
                                   q_partition_id = partition_id,
                                   q_host_crc32 = host_crc32,
                                   q_created_at = s_clock s1 * 1000000 + s_micros s1,
                                   q_crawl_at = schedule_at\<rparr>, s1))))))"

type_synonym batch_entry = "string \<times> real \<times> request \<times> bool"

definition set_state :: "int \<Rightarrow> request \<Rightarrow> request" where
  "set_state st request = request\<lparr>r_meta := (r_meta request)\<lparr>m_state := Some st\<rparr>\<rparr>"

text \<open>
  The body of the \<open>for\<close> loop of \<open>schedule\<close>, for one entry of the batch. The request is
  a Python object that the body mutates, so the entry is returned as the body leaves it;
  an exception leaves it as it was. \<open>if queue_id\<close> is false for an absent id and for 0.
  \<open>update(data)\<close> writes the meta as it is at that line; an object appended to \<open>to_save\<close>
  shares the request's meta dictionary, which line 104 changes before
  \<open>bulk_save_objects\<close> writes it.
\<close>

definition schedule_entry ::
  "'k rq_conf \<Rightarrow> batch_entry \<Rightarrow> queue_record list \<Rightarrow> rq_state
     \<Rightarrow> batch_entry \<times> (exn + queue_record list) \<times> rq_state" where
  "schedule_entry c entry to_save s =
     (case entry of (fprint, score, request, schedule) \<Rightarrow>
        if schedule then
          (case request_data c fprint score request s of
             (Inl exc, s1) \<Rightarrow> (entry, Inl exc, s1)
           | (Inr data, s1) \<Rightarrow>
               (case (case m_queue_id (r_meta request) of
                        None \<Rightarrow> None
                      | Some i \<Rightarrow> if i = 0 then None else Some i) of
                  Some queue_id \<Rightarrow>
                    (case query_update queue_id data s1 of
                       (Inl exc, s2) \<Rightarrow> (entry, Inl exc, s2)
                     | (Inr _, s2) \<Rightarrow>
                         ((fprint, score, set_state QUEUED request, schedule),
                          Inr to_save, s2))
                | None \<Rightarrow>
                    ((fprint, score, set_state QUEUED request, schedule),
                     Inr (to_save @ [data\<lparr>q_meta := r_meta (set_state QUEUED request)\<rparr>]),
                     s1)))
        else (entry, Inr to_save, s))"

text \<open>The loop over the batch: it stops at the first entry that raises.\<close>

fun schedule_loop ::
  "'k rq_conf \<Rightarrow> batch_entry list \<Rightarrow> queue_record list \<Rightarrow> rq_state
     \<Rightarrow> batch_entry list \<times> (exn + queue_record list) \<times> rq_state" where
  "schedule_loop c [] to_save s = ([], Inr to_save, s)"
| "schedule_loop c (entry # rest) to_save s =
     (case schedule_entry c entry to_save s of
        (entry', Inl exc, s1) \<Rightarrow> (entry' # rest, Inl exc, s1)
      | (entry', Inr to_save', s1) \<Rightarrow>
          (case schedule_loop c rest to_save' s1 of
             (rest', res) \<Rightarrow> (entry' # rest', res)))"

definition schedule_body ::
  "'k rq_conf \<Rightarrow> batch_entry list \<Rightarrow> rq_state \<Rightarrow> (exn + unit) \<times> batch_entry list \<times> rq_state" where
  "schedule_body c batch s =
     (case schedule_loop c batch [] s of
        (batch', Inl exc, s1) \<Rightarrow> (Inl exc, batch', s1)
      | (batch', Inr to_save, s1) \<Rightarrow>
          (case bulk_save_objects to_save s1 of
             (Inl exc, s2) \<Rightarrow> (Inl exc, batch', s2)
           | (Inr _, s2) \<Rightarrow>
               (case session_commit s2 of
                  (Inl exc, s3) \<Rightarrow> (Inl exc, batch', s3)
                | (Inr _, s3) \<Rightarrow> (Inr (), batch', s3))))"

definition schedule ::
  "'k rq_conf \<Rightarrow> batch_entry list \<Rightarrow> rq_state \<Rightarrow> (exn + unit) \<times> batch_entry list \<times> rq_state" where
  "schedule c batch s = retry_and_rollback (schedule_body c) batch s"

definition count_body :: "unit \<Rightarrow> rq_state \<Rightarrow> (exn + nat) \<times> unit \<times> rq_state" where
  "count_body u s =
     (case storage_op s of
        (True, s1) \<Rightarrow> (Inl StorageError, u, s1)
      | (False, s1) \<Rightarrow> (Inr (length (s_rows s1)), u, s1))"

definition count_queue :: "rq_state \<Rightarrow> (exn + nat) \<times> unit \<times> rq_state" where
  "count_queue s = retry_and_rollback count_body () s"

section \<open>Backend (frontera/contrib/backends/sqlalchemy/revisiting.py)\<close>

text \<open>
  The backend's queue, the batches its metadata component was asked to score (the
  metadata store belongs to \<open>SQLAlchemyBackend\<close>, so \<open>update_score\<close> is recorded as a
  call), and \<open>queue_size\<close>.
\<close>

record backend_state =
  b_queue :: rq_state
  b_metadata_updates :: "batch_entry list list"
  b_queue_size :: int

definition set_crawl_at :: "int \<Rightarrow> request \<Rightarrow> request" where
  "set_crawl_at t request = request\<lparr>r_meta := (r_meta request)\<lparr>m_crawl_at := Some t\<rparr>\<rparr>"

text \<open>
  The body of the \<open>for\<close> loop of \<open>Backend._schedule\<close>, for one request: the request as the
  body leaves it, and the entry appended to the batch (none when the loop continues).
  \<open>meta[b'state']\<close> and \<open>meta[b'fingerprint']\<close> raise \<open>KeyError\<close> when the key is absent.
  \<open>self.interval\<close> and \<open>self._get_score\<close> (of the parent class) are parameters.
\<close>

definition append_entry ::
  "(request \<Rightarrow> real) \<Rightarrow> request \<Rightarrow> request \<times> (exn + batch_entry option)" where
  "append_entry get_score request =
     (case m_fingerprint (r_meta request) of
        None \<Rightarrow> (request, Inl KeyError)
      | Some fprint \<Rightarrow> (request, Inr (Some (fprint, get_score request, request, True))))"

definition schedule_request ::
  "int \<Rightarrow> (request \<Rightarrow> real) \<Rightarrow> int \<Rightarrow> request \<Rightarrow> request \<times> (exn + batch_entry option)" where
  "schedule_request interval get_score now request =
     (case m_state (r_meta request) of
        None \<Rightarrow> (request, Inl KeyError)
      | Some st \<Rightarrow>
          if st \<in> set [NOT_CRAWLED]
          then append_entry get_score (set_crawl_at now request)
          else if st \<in> set [CRAWLED, ERROR]
          then append_entry get_score (set_crawl_at (now + interval) request)
          else (request, Inr None))"

text \<open>The loop over the requests; they are returned as the loop leaves them.\<close>

fun batch_loop ::
  "int \<Rightarrow> (request \<Rightarrow> real) \<Rightarrow> int \<Rightarrow> request list \<Rightarrow> batch_entry list
     \<Rightarrow> request list \<times> (exn + batch_entry list)" where
  "batch_loop interval get_score now [] batch = ([], Inr batch)"
| "batch_loop interval get_score now (request # rest) batch =
     (case schedule_request interval get_score now request of
        (request', Inl exc) \<Rightarrow> (request' # rest, Inl exc)
      | (request', Inr entry) \<Rightarrow>
          (case batch_loop interval get_score now rest
                  (case entry of None \<Rightarrow> batch | Some e \<Rightarrow> batch @ [e]) of
             (rest', res) \<Rightarrow> (request' # rest', res)))"

text \<open>
  \<open>Backend._schedule\<close>. The result holds the outcome, the requests after the loop, the
  batch after \<open>queue.schedule\<close> (whose requests are the caller's objects, with the state
  that \<open>schedule\<close> has set), and the backend.
\<close>

definition backend_schedule ::
  "'k rq_conf \<Rightarrow> int \<Rightarrow> (request \<Rightarrow> real) \<Rightarrow> request list \<Rightarrow> backend_state
     \<Rightarrow> (exn + unit) \<times> request list \<times> batch_entry list \<times> backend_state" where
  "backend_schedule c interval get_score requests b =
     (case batch_loop interval get_score (s_clock (b_queue b)) requests [] of
        (requests', Inl exc) \<Rightarrow> (Inl exc, requests', [], b)
      | (requests', Inr batch) \<Rightarrow>
          (case schedule c batch (b_queue b) of
             (Inl exc, batch', q') \<Rightarrow> (Inl exc, requests', batch', b\<lparr>b_queue := q'\<rparr>)
           | (Inr _, batch', q') \<Rightarrow>
               (Inr (), requests', batch',
                b\<lparr>b_queue := q',
                  b_metadata_updates := b_metadata_updates b @ [batch'],
                  b_queue_size := b_queue_size b + int (length batch')\<rparr>)))"

section \<open>Sample data\<close>

text \<open>Concrete requests, rows, states and a configuration, used to run the model.\<close>

definition sample_meta :: "int option \<Rightarrow> int option \<Rightarrow> string \<Rightarrow> meta" where
  "sample_meta st qid fp =
     \<lparr>m_state = st, m_crawl_at = None, m_queue_id = qid, m_fingerprint = Some fp,
      m_other = []\<rparr>"

definition sample_request :: "int option \<Rightarrow> int option \<Rightarrow> string \<Rightarrow> request" where
  "sample_request st qid fp =
     \<lparr>r_url = ''http://example.com/'' @ fp, r_method = ''GET'',
      r_meta = sample_meta st qid fp, r_headers = [], r_cookies = []\<rparr>"

definition sample_row :: "int \<Rightarrow> string \<Rightarrow> real \<Rightarrow> int \<Rightarrow> int \<Rightarrow> queue_record" where
  "sample_row i fp score partition_id crawl_at =
     \<lparr>q_id = Some i, q_fingerprint = fp, q_score = score,
      q_url = ''http://example.com/'' @ fp, q_meta = sample_meta (Some 1) None fp,
      q_headers = [], q_cookies = [], q_method = Some ''GET'',
      q_partition_id = partition_id, q_host_crc32 = 0, q_created_at = 0,
      q_crawl_at = crawl_at\<rparr>"

definition sample_state :: "queue_record list \<Rightarrow> int \<Rightarrow> nat list \<Rightarrow> rq_state" where
  "sample_state rows now fails =
     \<lparr>s_rows = rows, s_committed = rows, s_clock = now, s_micros = 0, s_ops = 0,
      s_fail_ops = fails, s_trace = []\<rparr>"

text \<open>
  Two partitions; the key of a request is the length of its URL, and no key can be
  derived from an empty URL. In \<open>sample_conf\<close> the URL parser returns for every URL. In
  \<open>strict_conf\<close> it raises \<open>ValueError\<close> on a URL with an unmatched square bracket, as
  \<open>urlparse\<close> does, and \<open>get_key\<close>, which parses the URL under a \<open>try\<close>, returns \<open>None\<close>
  for such a URL.
\<close>

definition sample_conf :: "int rq_conf" where
  "sample_conf =
     \<lparr>c_partitions = [0, 1], c_hash = id,
      c_get_key = (\<lambda>r. Inr (if r_url r = [] then None else Some (int (length (r_url r))))),
      c_hostname = (\<lambda>u. Inr (if u = [] then None else Some u)),
      c_get_crc32 = (\<lambda>h. Inr (int (length h))),
      c_dequeued_delay = 60\<rparr>"

definition unmatched_bracket :: "string \<Rightarrow> bool" where
  "unmatched_bracket u \<longleftrightarrow> (CHR ''['' \<in> set u) \<noteq> (CHR '']'' \<in> set u)"

definition strict_conf :: "int rq_conf" where
  "strict_conf =
     \<lparr>c_partitions = [0, 1], c_hash = id,
      c_get_key = (\<lambda>r. Inr (if unmatched_bracket (r_url r) then None
                              else Some (int (length (r_url r))))),
      c_hostname = (\<lambda>u. if unmatched_bracket u then Inl ValueError else Inr (Some u)),
      c_get_crc32 = (\<lambda>h. Inr (int (length h))),
      c_dequeued_delay = 60\<rparr>"

text \<open>A request whose URL \<open>urlparse\<close> refuses: the bracket of the host is not closed.\<close>

definition unparseable_request :: request where
  "unparseable_request =
     \<lparr>r_url = ''http://[::1'', r_method = ''GET'',
      r_meta = sample_meta (Some 0) None ''a'', r_headers = [], r_cookies = []\<rparr>"

section \<open>Reading the trace\<close>

text \<open>
  The events by which a run of \<open>retry_and_rollback\<close> is observed: the calls of the wrapped
  function, the exceptions logged, the rollbacks and the waits. A failed attempt leaves
  the four events of \<open>failed_attempt\<close>.
\<close>

fun is_wrapper_event :: "event \<Rightarrow> bool" where
  "is_wrapper_event Attempt = True"
| "is_wrapper_event (LogException _) = True"
| "is_wrapper_event Rollback = True"
| "is_wrapper_event (Sleep _) = True"
| "is_wrapper_event _ = False"

definition wrapper_events :: "rq_state \<Rightarrow> event list" where
  "wrapper_events s = filter is_wrapper_event (s_trace s)"

definition failed_attempt :: "exn \<Rightarrow> event list" where
  "failed_attempt exc = [Attempt, LogException exc, Rollback, Sleep 5]"

section \<open>Entries of a batch\<close>

definition should_schedule :: "batch_entry \<Rightarrow> bool" where
  "should_schedule entry = (case entry of (fprint, score, request, flag) \<Rightarrow> flag)"

text \<open>An entry as the loop of \<open>schedule\<close> leaves it once its body has run to line 104.\<close>

definition mark_entry :: "batch_entry \<Rightarrow> batch_entry" where
  "mark_entry entry =
     (case entry of (fprint, score, request, flag) \<Rightarrow>
        (fprint, score, if flag then set_state QUEUED request else request, flag))"

text \<open>
  What one entry does to the table when nothing fails, read off the body of the loop:
  the queue id that \<open>if queue_id\<close> accepts, the row data of the entry in a given state,
  the change that \<open>update(data)\<close> makes to a row, and the object appended to \<open>to_save\<close>.
\<close>

definition entry_queue_id :: "batch_entry \<Rightarrow> int option" where
  "entry_queue_id entry =
     (case entry of (fprint, score, request, flag) \<Rightarrow>
        (case m_queue_id (r_meta request) of
           None \<Rightarrow> None
         | Some i \<Rightarrow> if i = 0 then None else Some i))"

definition entry_data :: "'k rq_conf \<Rightarrow> rq_state \<Rightarrow> batch_entry \<Rightarrow> exn + queue_record" where
  "entry_data c s entry =
     (case entry of (fprint, score, request, flag) \<Rightarrow>
        fst (request_data c fprint score request s))"

definition entry_update ::
  "'k rq_conf \<Rightarrow> rq_state \<Rightarrow> batch_entry \<Rightarrow> queue_record \<Rightarrow> queue_record" where
  "entry_update c s entry x =
     (if should_schedule entry then
        (case entry_queue_id entry of
           None \<Rightarrow> x
         | Some q \<Rightarrow>
             (case entry_data c s entry of
                Inl exc \<Rightarrow> x
              | Inr d \<Rightarrow> if q_id x = Some q then d\<lparr>q_id := q_id x\<rparr> else x))
      else x)"


section \<open>Properties\<close>

subsection \<open>Partitioner\<close>

lemma partition_index_less: "0 < n \<Longrightarrow> partition_index hash k n < n"
  unfolding partition_index_def
  by (simp add: nat_less_iff)

lemma partition_some:
  "P \<noteq> [] \<Longrightarrow> Partitioner_partition hash sp (Some k) (Some P)
           = Inr (P ! partition_index hash k (length P))"
  by (simp add: Partitioner_partition_def)

lemma partition_hash_only:
  "hash k' = hash k \<Longrightarrow> Partitioner_partition hash sp (Some k') ps
              = Partitioner_partition hash sp (Some k) ps"
  by (simp add: Partitioner_partition_def partition_index_def Let_def)

text \<open>
  Claim C6, as stated, fails: the same key and the same partitions in another order give
  another value. With the hash of an integer key being the key itself (as
  \<open>Crc32NamePartitioner.hash\<close> has it), key 6 selects position 0 of three partitions,
  which holds partition 0 in \<open>[0, 1, 2]\<close> and partition 2 in \<open>[2, 1, 0]\<close>.
\<close>

theorem partition_order_counterexample:
  "Partitioner_partition id [] (Some (6::int)) (Some [0, 1, 2]) = Inr 0 \<and>
   Partitioner_partition id [] (Some (6::int)) (Some [2, 1, 0]) = Inr 2 \<and>
   mset [2, 1, 0::int] = mset [0, 1, 2]"
  by (simp add: Partitioner_partition_def partition_index_def HASH_MASK_def)

lemma partition_formula:
  "Partitioner_partition hash sp (Some k) (Some P)
     = (if P = [] \<and> sp = [] then Inl ZeroDivisionError
        else Inr ((if P = [] then sp else P) !
                    nat ((hash k AND (2 ^ 31 - 1))
                           mod int (length (if P = [] then sp else P)))))"
  by (simp add: Partitioner_partition_def partition_index_def HASH_MASK_def)

text \<open>
  Claim C6, amended: for every key \<open>k\<close> and every partition list \<open>P\<close>, \<open>partition(k, P)\<close> returns
  the element at position \<open>(hash(k) & (2**31 - 1)) mod len(P)\<close> of \<open>P\<close> (of \<open>self.partitions\<close>
  when \<open>P\<close> is empty, and raises when both are empty); the result depends on the key
  through its hash only, so repeated calls agree. Reordering \<open>P\<close> keeps that position, and
  the call returns the element that the reordered list holds there, a member of \<open>P\<close>.
\<close>

theorem partition_by_position:
  "Partitioner_partition hash sp (Some k) (Some P)
     = (if P = [] \<and> sp = [] then Inl ZeroDivisionError
        else Inr ((if P = [] then sp else P) !
                    nat ((hash k AND (2 ^ 31 - 1))
                           mod int (length (if P = [] then sp else P))))) \<and>
   (\<forall>k'. hash k' = hash k \<longrightarrow>
      Partitioner_partition hash sp (Some k') (Some P)
        = Partitioner_partition hash sp (Some k) (Some P)) \<and>
   (P \<noteq> [] \<longrightarrow>
      nat ((hash k AND (2 ^ 31 - 1)) mod int (length P)) < length P \<and>
      (\<forall>P'. mset P' = mset P \<longrightarrow>
         Partitioner_partition hash sp (Some k) (Some P')
           = Inr (P' ! nat ((hash k AND (2 ^ 31 - 1)) mod int (length P))) \<and>
         P' ! nat ((hash k AND (2 ^ 31 - 1)) mod int (length P)) \<in> set P))"
proof (intro conjI allI impI)
  show "Partitioner_partition hash sp (Some k) (Some P)
     = (if P = [] \<and> sp = [] then Inl ZeroDivisionError
        else Inr ((if P = [] then sp else P) !
                    nat ((hash k AND (2 ^ 31 - 1))
                           mod int (length (if P = [] then sp else P)))))"
    by (rule partition_formula)
  show "Partitioner_partition hash sp (Some k') (Some P)
        = Partitioner_partition hash sp (Some k) (Some P)" if "hash k' = hash k" for k'
    using that by (rule partition_hash_only)
  assume ne: "P \<noteq> []"
  have "0 \<le> hash k AND (2 ^ 31 - 1)" by simp
  then show lt: "nat ((hash k AND (2 ^ 31 - 1)) mod int (length P)) < length P"
    using ne by (simp add: nat_less_iff)
  fix P' assume m: "mset P' = mset P"
  have len: "length P' = length P" using m by (rule mset_eq_length)
  have ne': "P' \<noteq> []" using len ne by auto
  show "Partitioner_partition hash sp (Some k) (Some P')
           = Inr (P' ! nat ((hash k AND (2 ^ 31 - 1)) mod int (length P)))"
    using ne' len by (simp add: partition_formula)
  have "set P' = set P" using m by (rule mset_eq_setD)
  then show "P' ! nat ((hash k AND (2 ^ 31 - 1)) mod int (length P)) \<in> set P"
    using lt len nth_mem [of "nat ((hash k AND (2 ^ 31 - 1)) mod int (length P))" P']
    by simp
qed

text \<open>
  Keys above \<open>2**31\<close> and below 0 reach the mask: \<open>2**31\<close> is masked to 0 and \<open>-1\<close> to
  \<open>2**31 - 1\<close>, which is 1 modulo 3.
\<close>

theorem partition_by_position_witness:
  "Partitioner_partition id [] (Some (2147483648::int)) (Some [0, 1, 2]) = Inr 0 \<and>
   Partitioner_partition id [] (Some (2147483648::int)) (Some [2, 1, 0]) = Inr 2 \<and>
   Partitioner_partition id [] (Some (- 1::int)) (Some [0, 1, 2]) = Inr 1 \<and>
   Partitioner_partition id [] (Some (- 1::int)) (Some [2, 1, 0]) = Inr 1 \<and>
   Partitioner_partition id [5, 6] (Some (7::int)) (Some []) = Inr 6 \<and>
   Partitioner_partition id [] (Some (7::int)) (Some []) = Inl ZeroDivisionError \<and>
   mset [2, 1, 0::int] = mset [0, 1, 2]"
proof -
  have m: "mset [2, 1, 0::int] = mset [0, 1, 2]" by simp
  have a: "(2147483648::int) AND (2 ^ 31 - 1) = 0" by simp
  have b: "(- 1::int) AND (2 ^ 31 - 1) = 2147483647" by simp
  note T1 = partition_by_position [of id "[]" 2147483648 "[0, 1, 2]"]
  note T2 = partition_by_position [of id "[]" "- 1" "[0, 1, 2]"]
  note T3 = partition_by_position [of id "[5, 6]" 7 "[]"]
  note T4 = partition_by_position [of id "[]" 7 "[]"]
  from T1 have 1: "Partitioner_partition id [] (Some (2147483648::int)) (Some [0, 1, 2]) = Inr 0"
    by (simp add: a)
  from T1 m have 2: "Partitioner_partition id [] (Some (2147483648::int)) (Some [2, 1, 0]) = Inr 2"
    by (simp add: a)
  from T2 have 3: "Partitioner_partition id [] (Some (- 1::int)) (Some [0, 1, 2]) = Inr 1"
    by (simp add: b)
  from T2 m have 4: "Partitioner_partition id [] (Some (- 1::int)) (Some [2, 1, 0]) = Inr 1"
    by (simp add: b)
  from T3 have 5: "Partitioner_partition id [5, 6] (Some (7::int)) (Some []) = Inr 6"
    by simp
  from T4 have 6: "Partitioner_partition id [] (Some (7::int)) (Some []) = Inl ZeroDivisionError"
    by simp
  from 1 2 3 4 5 6 m show ?thesis by blast
qed

subsection \<open>Feed stream back-pressure\<close>

lemma available_partitions_filter:
  "available_partitions lags m = map fst (filter (\<lambda>(p, lag). lag < m) lags)"
  by (induction lags m rule: available_partitions.induct) auto

text \<open>
  Claim C7: \<open>available_partitions()\<close> returns, each once, exactly the partitions whose lag
  (as \<open>OffsetsFetcherAsync.get()\<close> reports it, one lag per partition) is strictly below
  \<open>max_next_requests\<close>; a partition whose lag meets or exceeds the ceiling is absent.
\<close>

theorem available_partitions_exact:
  assumes "distinct (map fst lags)"
  shows "distinct (available_partitions lags m) \<and>
         (\<forall>p. p \<in> set (available_partitions lags m) \<longleftrightarrow>
              (\<exists>lag. map_of lags p = Some lag \<and> lag < m))"
proof -
  have d: "distinct (available_partitions lags m)"
    unfolding available_partitions_filter using assms by (simp add: distinct_map_filter)
  have "p \<in> set (available_partitions lags m) \<longleftrightarrow>
          (\<exists>lag. map_of lags p = Some lag \<and> lag < m)" for p
    unfolding available_partitions_filter using assms by (auto simp: image_iff)
  with d show ?thesis by blast
qed

theorem available_partitions_exact_witness:
  "distinct (map fst [(0, 5), (1, 64), (2, 63), (3::int, 200::int)]) \<and>
   available_partitions [(0, 5), (1, 64), (2, 63), (3, 200)] 64 = [0, 2] \<and>
   (1 \<in> set (available_partitions [(0, 5), (1, 64), (2, 63), (3, 200)] 64) \<longleftrightarrow>
      (\<exists>lag. map_of [(0, 5), (1, 64), (2, 63), (3::int, 200::int)] 1 = Some lag \<and> lag < 64))"
  using available_partitions_exact [of "[(0, 5), (1, 64), (2, 63), (3, 200)]" 64]
  by simp

subsection \<open>Selecting the next requests\<close>

lemma order_key_le:
  "order_key a \<le> order_key b \<longleftrightarrow>
     q_score a > q_score b \<or> (q_score a = q_score b \<and> q_crawl_at a \<le> q_crawl_at b)"
  by (auto simp: order_key_def)

lemma sorted_wrt_order_key:
  "sorted_wrt (\<lambda>a b. q_score a > q_score b \<or>
                      (q_score a = q_score b \<and> q_crawl_at a \<le> q_crawl_at b))
     (sort_key order_key rs)"
proof -
  have "sorted (map order_key (sort_key order_key rs))"
    by (rule sorted_sort_key)
  then have "sorted_wrt (\<lambda>a b. order_key a \<le> order_key b) (sort_key order_key rs)"
    by (simp add: sorted_map)
  then show ?thesis by (simp add: order_key_le)
qed

lemma set_select_rows:
  "set (select_rows now n pid rs) \<subseteq> {r \<in> set rs. eligible now pid r}"
  unfolding select_rows_def
  using set_take_subset [of n "sort_key order_key (filter (eligible now pid) rs)"]
  by auto

lemma length_select_rows:
  "length (select_rows now n pid rs) = min n (length (filter (eligible now pid) rs))"
  unfolding select_rows_def by (simp add: min.commute)

lemma query_next_requests_Inr:
  "query_next_requests n pid s = (Inr items, s') \<Longrightarrow>
     items = select_rows (s_clock s) n pid (s_rows s) \<and> s' = s\<lparr>s_ops := Suc (s_ops s)\<rparr>"
  by (auto simp: query_next_requests_def storage_op_def split: bool.splits)

text \<open>
  Claim C3: the records that \<open>get_next_requests(max_n, partition_id)\<close> selects at time
  \<open>now\<close> are at most \<open>max_n\<close> rows of the table, all of partition \<open>partition_id\<close> and all
  with \<open>crawl_at <= now\<close> (so never a row whose \<open>crawl_at\<close> is in the future, whatever its
  score), ordered by score descending and then \<open>crawl_at\<close> ascending. They are the first
  rows of the eligible rows in that order: all of them when fewer than \<open>max_n\<close> are
  selected.
\<close>

theorem query_next_requests_selects:
  assumes "query_next_requests max_n partition_id s = (Inr items, s')"
  shows "length items \<le> max_n \<and>
         (\<forall>r \<in> set items. r \<in> set (s_rows s) \<and> q_partition_id r = partition_id \<and>
                            q_crawl_at r \<le> s_clock s) \<and>
         sorted_wrt (\<lambda>a b. q_score a > q_score b \<or>
                            (q_score a = q_score b \<and> q_crawl_at a \<le> q_crawl_at b)) items \<and>
         (\<exists>rest. mset (items @ rest)
                   = mset (filter (eligible (s_clock s) partition_id) (s_rows s)) \<and>
                 (length items < max_n \<longrightarrow> rest = []) \<and>
                 sorted_wrt (\<lambda>a b. q_score a > q_score b \<or>
                            (q_score a = q_score b \<and> q_crawl_at a \<le> q_crawl_at b))
                   (items @ rest))"
proof -
  let ?el = "filter (eligible (s_clock s) partition_id) (s_rows s)"
  let ?sorted = "sort_key order_key ?el"
  have items: "items = take max_n ?sorted"
    using query_next_requests_Inr [OF assms] by (simp add: select_rows_def)
  have 1: "length items \<le> max_n" by (simp add: items)
  have 2: "\<forall>r \<in> set items. r \<in> set (s_rows s) \<and> q_partition_id r = partition_id \<and>
                            q_crawl_at r \<le> s_clock s"
    using set_take_subset [of max_n ?sorted] by (auto simp: items eligible_def)
  have app: "items @ drop max_n ?sorted = ?sorted" by (simp add: items)
  have 3: "sorted_wrt (\<lambda>a b. q_score a > q_score b \<or>
                            (q_score a = q_score b \<and> q_crawl_at a \<le> q_crawl_at b)) items"
    unfolding items by (rule sorted_wrt_take) (rule sorted_wrt_order_key)
  have 4: "mset (items @ drop max_n ?sorted) = mset ?el"
    unfolding app by simp
  have 5: "length items < max_n \<longrightarrow> drop max_n ?sorted = []"
    by (simp add: items)
  have 6: "sorted_wrt (\<lambda>a b. q_score a > q_score b \<or>
                            (q_score a = q_score b \<and> q_crawl_at a \<le> q_crawl_at b))
             (items @ drop max_n ?sorted)"
    unfolding app by (rule sorted_wrt_order_key)
  from 4 5 6 have "\<exists>rest. mset (items @ rest) = mset ?el \<and>
                 (length items < max_n \<longrightarrow> rest = []) \<and>
                 sorted_wrt (\<lambda>a b. q_score a > q_score b \<or>
                            (q_score a = q_score b \<and> q_crawl_at a \<le> q_crawl_at b))
                   (items @ rest)"
    by (intro exI [of _ "drop max_n ?sorted"] conjI)
  with 1 2 3 show ?thesis by (intro conjI)
qed

lemma sample_query:
  "query_next_requests 2 0
     (sample_state [sample_row 1 ''a'' 5 0 30, sample_row 2 ''b'' 5 0 20,
                    sample_row 3 ''c'' 3 0 10, sample_row 4 ''d'' 9 0 500,
                    sample_row 5 ''e'' 9 1 10] 100 [])
   = (Inr [sample_row 2 ''b'' 5 0 20, sample_row 1 ''a'' 5 0 30],
      (sample_state [sample_row 1 ''a'' 5 0 30, sample_row 2 ''b'' 5 0 20,
                    sample_row 3 ''c'' 3 0 10, sample_row 4 ''d'' 9 0 500,
                    sample_row 5 ''e'' 9 1 10] 100 [])\<lparr>s_ops := 1\<rparr>)"
  by (simp add: query_next_requests_def storage_op_def select_rows_def eligible_def
        order_key_def sample_state_def sample_row_def)

theorem query_next_requests_selects_witness:
  "query_next_requests 2 0
     (sample_state [sample_row 1 ''a'' 5 0 30, sample_row 2 ''b'' 5 0 20,
                    sample_row 3 ''c'' 3 0 10, sample_row 4 ''d'' 9 0 500,
                    sample_row 5 ''e'' 9 1 10] 100 [])
   = (Inr [sample_row 2 ''b'' 5 0 20, sample_row 1 ''a'' 5 0 30],
      (sample_state [sample_row 1 ''a'' 5 0 30, sample_row 2 ''b'' 5 0 20,
                    sample_row 3 ''c'' 3 0 10, sample_row 4 ''d'' 9 0 500,
                    sample_row 5 ''e'' 9 1 10] 100 [])\<lparr>s_ops := 1\<rparr>) \<and>
   length [sample_row 2 ''b'' 5 0 20, sample_row 1 ''a'' 5 0 30] \<le> 2 \<and>
   sorted_wrt (\<lambda>a b. q_score a > q_score b \<or>
                      (q_score a = q_score b \<and> q_crawl_at a \<le> q_crawl_at b))
     [sample_row 2 ''b'' 5 0 20, sample_row 1 ''a'' 5 0 30]"
  using query_next_requests_selects [OF sample_query] sample_query
  by simp

subsection \<open>Releasing the selected records\<close>

lemma release_loop_map:
  "release_loop c now items results to_save =
     (results @ map request_from_record items,
      to_save @ map (\<lambda>item. item\<lparr>q_crawl_at := now + c_dequeued_delay c\<rparr>) items)"
  by (induction items arbitrary: results to_save) auto

lemma fold_save_object_loaded:
  assumes sub: "set items \<subseteq> set rs"
    and dist: "distinct (map q_id rs)"
    and ids: "\<forall>r \<in> set rs. q_id r \<noteq> None"
    and upd: "\<And>r. q_id (upd r) = q_id r"
  shows "fold save_object (map upd items) rs = map (\<lambda>r. if r \<in> set items then upd r else r) rs"
  using sub
proof (induction items rule: rev_induct)
  case Nil
  then show ?case by simp
next
  case (snoc x xs)
  from snoc.prems have x: "x \<in> set rs" and xs: "set xs \<subseteq> set rs" by auto
  from x ids obtain i where i: "q_id x = Some i" by auto
  have inj: "inj_on q_id (set rs)" using dist by (simp add: distinct_map)
  have eq: "r = x" if "r \<in> set rs" "q_id r = Some i" for r
    using that x i inj_onD [OF inj, of r x] by simp
  have "fold save_object (map upd (xs @ [x])) rs
        = save_object (upd x) (map (\<lambda>r. if r \<in> set xs then upd r else r) rs)"
    using snoc.IH [OF xs] by simp
  also have "\<dots> = map (\<lambda>r. if q_id (if r \<in> set xs then upd r else r) = Some i then upd x
                              else (if r \<in> set xs then upd r else r)) rs"
    by (simp add: save_object_def upd i comp_def)
  also have "\<dots> = map (\<lambda>r. if r \<in> set (xs @ [x]) then upd r else r) rs"
    by (rule map_cong) (auto simp: upd i dest: eq)
  finally show ?case .
qed

lemma storage_op_ok:
  "s_ops s \<notin> set (s_fail_ops s) \<Longrightarrow> storage_op s = (False, s\<lparr>s_ops := Suc (s_ops s)\<rparr>)"
  by (simp add: storage_op_def)

lemma storage_op_fail:
  "s_ops s \<in> set (s_fail_ops s) \<Longrightarrow> storage_op s = (True, s\<lparr>s_ops := Suc (s_ops s)\<rparr>)"
  by (simp add: storage_op_def)

lemma get_next_requests_ok:
  assumes "s_ops s \<notin> set (s_fail_ops s)"
    and "Suc (s_ops s) \<notin> set (s_fail_ops s)"
    and "Suc (Suc (s_ops s)) \<notin> set (s_fail_ops s)"
  shows "get_next_requests c n pid s =
     (map request_from_record (select_rows (s_clock s) n pid (s_rows s)),
      s\<lparr>s_ops := Suc (Suc (Suc (s_ops s))),
        s_rows := fold save_object
           (map (\<lambda>item. item\<lparr>q_crawl_at := s_clock s + c_dequeued_delay c\<rparr>)
              (select_rows (s_clock s) n pid (s_rows s))) (s_rows s),
        s_committed := fold save_object
           (map (\<lambda>item. item\<lparr>q_crawl_at := s_clock s + c_dequeued_delay c\<rparr>)
              (select_rows (s_clock s) n pid (s_rows s))) (s_rows s)\<rparr>)"
  using assms
  by (simp add: get_next_requests_def query_next_requests_def bulk_save_objects_def
        session_commit_def storage_op_ok release_loop_map)


text \<open>
  Claim C8: when no statement of a \<open>get_next_requests\<close> call fails, every selected record
  is stored (and committed) with \<open>crawl_at\<close> advanced to now plus the dequeue delay, and the
  requests returned are those built from the selected records; until that time is
  reached no query selects the record again. Ids identify rows of the table.
\<close>

theorem get_next_requests_holds_selected:
  assumes ok: "s_ops s \<notin> set (s_fail_ops s)" "Suc (s_ops s) \<notin> set (s_fail_ops s)"
              "Suc (Suc (s_ops s)) \<notin> set (s_fail_ops s)"
    and dist: "distinct (map q_id (s_rows s))"
    and ids: "\<forall>r \<in> set (s_rows s). q_id r \<noteq> None"
    and call: "get_next_requests c max_n partition_id s = (results, s')"
    and items: "items = select_rows (s_clock s) max_n partition_id (s_rows s)"
  shows "results = map request_from_record items \<and>
         s_rows s' = map (\<lambda>r. if r \<in> set items
                               then r\<lparr>q_crawl_at := s_clock s + c_dequeued_delay c\<rparr>
                               else r) (s_rows s) \<and>
         s_committed s' = s_rows s' \<and>
         (\<forall>item \<in> set items.
            item\<lparr>q_crawl_at := s_clock s + c_dequeued_delay c\<rparr> \<in> set (s_committed s') \<and>
            (\<forall>t n p. t < s_clock s + c_dequeued_delay c \<longrightarrow>
               (\<forall>r \<in> set (select_rows t n p (s_rows s')). q_id r \<noteq> q_id item)))"
proof -
  let ?upd = "\<lambda>r. r\<lparr>q_crawl_at := s_clock s + c_dequeued_delay c\<rparr>"
  let ?new = "map (\<lambda>r. if r \<in> set items then ?upd r else r) (s_rows s)"
  have sub: "set items \<subseteq> set (s_rows s)"
    using set_select_rows [of "s_clock s" max_n partition_id "s_rows s"] by (auto simp: items)
  have fold: "fold save_object (map ?upd items) (s_rows s) = ?new"
    by (rule fold_save_object_loaded [OF sub dist ids]) simp
  from call have res: "results = map request_from_record items"
    and rows: "s_rows s' = ?new" and com: "s_committed s' = ?new"
    unfolding get_next_requests_ok [OF ok] items [symmetric] fold by auto
  have inj: "inj_on q_id (set (s_rows s))" using dist by (simp add: distinct_map)
  have held: "?upd item \<in> set (s_committed s') \<and>
            (\<forall>t n p. t < s_clock s + c_dequeued_delay c \<longrightarrow>
               (\<forall>r \<in> set (select_rows t n p (s_rows s')). q_id r \<noteq> q_id item))"
    if item: "item \<in> set items" for item
  proof (intro conjI allI impI ballI)
    from item sub show "?upd item \<in> set (s_committed s')"
      unfolding com by (auto simp: image_iff intro!: bexI [of _ item])
  next
    fix t n p r
    assume t: "t < s_clock s + c_dequeued_delay c"
      and r: "r \<in> set (select_rows t n p (s_rows s'))"
    from r set_select_rows [of t n p "s_rows s'"]
    have mem: "r \<in> set (s_rows s')" and due: "q_crawl_at r \<le> t"
      by (auto simp: eligible_def)
    from mem obtain r0 where r0: "r0 \<in> set (s_rows s)"
      and r_def: "r = (if r0 \<in> set items then ?upd r0 else r0)"
      unfolding rows by auto
    show "q_id r \<noteq> q_id item"
    proof
      assume "q_id r = q_id item"
      then have "q_id r0 = q_id item" by (simp add: r_def split: if_splits)
      with inj r0 item sub have "r0 = item" by (auto dest: inj_onD)
      with item r_def have "q_crawl_at r = s_clock s + c_dequeued_delay c" by simp
      with due t show False by simp
    qed
  qed
  from res rows com held show ?thesis by simp
qed

lemma sample_get_next_requests:
  "get_next_requests sample_conf 1 0
     (sample_state [sample_row 1 ''a'' 5 0 30, sample_row 2 ''b'' 5 0 20] 100 [])
   = ([request_from_record (sample_row 2 ''b'' 5 0 20)],
      (sample_state [sample_row 1 ''a'' 5 0 30, sample_row 2 ''b'' 5 0 160] 100 [])
        \<lparr>s_ops := 3\<rparr>)"
  by (simp add: get_next_requests_def query_next_requests_def bulk_save_objects_def
        session_commit_def storage_op_def select_rows_def eligible_def order_key_def
        save_object_def sample_state_def sample_row_def sample_conf_def)


theorem get_next_requests_holds_selected_witness:
  "get_next_requests sample_conf 1 0
     (sample_state [sample_row 1 ''a'' 5 0 30, sample_row 2 ''b'' 5 0 20] 100 [])
   = ([request_from_record (sample_row 2 ''b'' 5 0 20)],
      (sample_state [sample_row 1 ''a'' 5 0 30, sample_row 2 ''b'' 5 0 160] 100 [])
        \<lparr>s_ops := 3\<rparr>) \<and>
   select_rows 100 1 0 [sample_row 1 ''a'' 5 0 30, sample_row 2 ''b'' 5 0 20]
     = [sample_row 2 ''b'' 5 0 20] \<and>
   sample_row 2 ''b'' 5 0 160 \<in> set (s_committed
      ((sample_state [sample_row 1 ''a'' 5 0 30, sample_row 2 ''b'' 5 0 160] 100 [])
        \<lparr>s_ops := 3\<rparr>)) \<and>
   select_rows 159 1 0 [sample_row 1 ''a'' 5 0 30, sample_row 2 ''b'' 5 0 160]
     = [sample_row 1 ''a'' 5 0 30]"
proof -
  let ?s = "sample_state [sample_row 1 ''a'' 5 0 30, sample_row 2 ''b'' 5 0 20] 100 []"
  have ok: "s_ops ?s \<notin> set (s_fail_ops ?s)" "Suc (s_ops ?s) \<notin> set (s_fail_ops ?s)"
    "Suc (Suc (s_ops ?s)) \<notin> set (s_fail_ops ?s)"
    by (simp_all add: sample_state_def)
  have dist: "distinct (map q_id (s_rows ?s))"
    by (simp add: sample_state_def sample_row_def)
  have ids: "\<forall>r \<in> set (s_rows ?s). q_id r \<noteq> None"
    by (simp add: sample_state_def sample_row_def)
  have sel: "select_rows 100 1 0 [sample_row 1 ''a'' 5 0 30, sample_row 2 ''b'' 5 0 20]
     = [sample_row 2 ''b'' 5 0 20]"
    by (simp add: select_rows_def eligible_def order_key_def sample_row_def)
  have sel2: "select_rows 159 1 0 [sample_row 1 ''a'' 5 0 30, sample_row 2 ''b'' 5 0 160]
     = [sample_row 1 ''a'' 5 0 30]"
    by (simp add: select_rows_def eligible_def order_key_def sample_row_def)
  from get_next_requests_holds_selected [OF ok dist ids sample_get_next_requests refl]
  show ?thesis
    using sample_get_next_requests sel sel2
    by (simp add: sample_state_def)
qed

subsection \<open>The retry wrapper\<close>

lemma wrapper_events_emit:
  "wrapper_events (emit ev s) = wrapper_events s @ (if is_wrapper_event ev then [ev] else [])"
  by (simp add: wrapper_events_def emit_def)

lemma wrapper_events_after_failure:
  "wrapper_events (sleep 5 (session_rollback (emit (LogException exc) s)))
     = wrapper_events s @ [LogException exc, Rollback, Sleep 5]"
  by (simp add: wrapper_events_def emit_def sleep_def session_rollback_def)

lemma func_wrapper_trace:
  assumes frame: "\<forall>m s. wrapper_events (snd (snd (func m s))) = wrapper_events s"
  shows "func_wrapper func (int (Suc n)) m s = (res, m', s') \<Longrightarrow>
     (case res of
        Inl exc \<Rightarrow> \<exists>es. length es = Suc n \<and> last es = exc \<and>
                   wrapper_events s' = wrapper_events s @ concat (map failed_attempt es)
      | Inr v \<Rightarrow> \<exists>es m0 s0. length es \<le> n \<and>
                   wrapper_events s' = wrapper_events s @ concat (map failed_attempt es) @ [Attempt] \<and>
                   func m0 s0 = (Inr v, m', s'))"
proof (induction n arbitrary: m s)
  case 0
  obtain r m1 s1 where f: "func m (emit Attempt s) = (r, m1, s1)"
    by (cases "func m (emit Attempt s)") auto
  have w1: "wrapper_events s1 = wrapper_events s @ [Attempt]"
    using frame [rule_format, of m "emit Attempt s"] f by (simp add: wrapper_events_emit)
  show ?case
  proof (cases r)
    case (Inr v)
    with 0 f have "res = Inr v" "m' = m1" "s' = s1" by (simp_all add: func_wrapper.simps)
    with f Inr w1 show ?thesis
      by (auto intro!: exI [of _ "[]"])
  next
    case (Inl exc)
    with 0 f have "res = Inl exc"
      and "s' = sleep 5 (session_rollback (emit (LogException exc) s1))"
      by (simp_all add: func_wrapper.simps Let_def)
    then show ?thesis
      using w1 by (auto simp: wrapper_events_after_failure failed_attempt_def intro!: exI [of _ "[exc]"])
  qed
next
  case (Suc n)
  obtain r m1 s1 where f: "func m (emit Attempt s) = (r, m1, s1)"
    by (cases "func m (emit Attempt s)") auto
  have w1: "wrapper_events s1 = wrapper_events s @ [Attempt]"
    using frame [rule_format, of m "emit Attempt s"] f by (simp add: wrapper_events_emit)
  show ?case
  proof (cases r)
    case (Inr v)
    with Suc.prems f have "res = Inr v" "m' = m1" "s' = s1"
      by (simp_all add: func_wrapper.simps [of func "int (Suc (Suc n))"])
    with f Inr w1 show ?thesis
      by (auto intro!: exI [of _ "[]"])
  next
    case (Inl exc)
    let ?s2 = "emit (LogInfo (int (Suc n))) (sleep 5 (session_rollback (emit (LogException exc) s1)))"
    have w2: "wrapper_events ?s2 = wrapper_events s @ failed_attempt exc"
      by (simp add: wrapper_events_emit wrapper_events_after_failure w1 failed_attempt_def)
    have eq: "int (Suc (Suc n)) - 1 = int (Suc n)" by simp
    from Suc.prems f Inl have rec: "func_wrapper func (int (Suc n)) m1 ?s2 = (res, m', s')"
      by (simp add: func_wrapper.simps [of func "int (Suc (Suc n))"] Let_def eq del: of_nat_Suc)
    note IH = Suc.IH [OF rec]
    show ?thesis
    proof (cases res)
      case (Inl e)
      with IH obtain es where es: "length es = Suc n" "last es = e"
        "wrapper_events s' = wrapper_events ?s2 @ concat (map failed_attempt es)"
        by auto
      then have "length (exc # es) = Suc (Suc n) \<and> last (exc # es) = e \<and>
            wrapper_events s' = wrapper_events s @ concat (map failed_attempt (exc # es))"
        using w2 by auto
      then show ?thesis unfolding Inl sum.case by (rule exI)
    next
      case (Inr v)
      with IH obtain es m0 s0 where es: "length es \<le> n"
        "wrapper_events s' = wrapper_events ?s2 @ concat (map failed_attempt es) @ [Attempt]"
        "func m0 s0 = (Inr v, m', s')"
        by auto
      then have "length (exc # es) \<le> Suc n \<and>
            wrapper_events s' = wrapper_events s @ concat (map failed_attempt (exc # es)) @ [Attempt] \<and>
            func m0 s0 = (Inr v, m', s')"
        using w2 by auto
      then show ?thesis unfolding Inr sum.case by blast
    qed
  qed
qed

lemma request_data_frame:
  "request_data c fprint score request s = (r, s') \<Longrightarrow> wrapper_events s' = wrapper_events s"
  by (auto simp: request_data_def Let_def wrapper_events_emit
           split: option.splits list.splits sum.splits prod.splits)

lemma query_update_frame:
  "query_update i d s = (r, s') \<Longrightarrow> wrapper_events s' = wrapper_events s"
  by (auto simp: query_update_def wrapper_events_def storage_op_def split: bool.splits)

lemma bulk_save_objects_frame:
  "bulk_save_objects objs s = (r, s') \<Longrightarrow> wrapper_events s' = wrapper_events s"
  by (auto simp: bulk_save_objects_def wrapper_events_def storage_op_def split: bool.splits)

lemma session_commit_frame:
  "session_commit s = (r, s') \<Longrightarrow> wrapper_events s' = wrapper_events s"
  by (auto simp: session_commit_def wrapper_events_def storage_op_def split: bool.splits)

lemma schedule_entry_frame:
  "schedule_entry c entry to_save s = (entry', r, s') \<Longrightarrow> wrapper_events s' = wrapper_events s"
  by (auto simp: schedule_entry_def split: prod.splits if_splits sum.splits option.splits)
     (auto dest!: request_data_frame query_update_frame)

lemma schedule_loop_frame:
  "schedule_loop c batch to_save s = (batch', r, s') \<Longrightarrow> wrapper_events s' = wrapper_events s"
proof (induction batch arbitrary: to_save s batch' r s')
  case Nil
  then show ?case by simp
next
  case (Cons entry rest)
  obtain e' r1 s1 where e: "schedule_entry c entry to_save s = (e', r1, s1)"
    by (cases "schedule_entry c entry to_save s") auto
  note f = schedule_entry_frame [OF e]
  show ?case
  proof (cases r1)
    case (Inl exc)
    with Cons.prems e f show ?thesis by simp
  next
    case (Inr ts)
    with Cons.prems e obtain b where "schedule_loop c rest ts s1 = (b, r, s')"
      by (auto split: prod.splits)
    from Cons.IH [OF this] f show ?thesis by simp
  qed
qed

lemma schedule_body_frame':
  "schedule_body c batch s = (r, batch', s') \<Longrightarrow> wrapper_events s' = wrapper_events s"
  by (auto simp: schedule_body_def split: prod.splits sum.splits)
     (auto dest!: schedule_loop_frame bulk_save_objects_frame session_commit_frame)

text \<open>
  The two functions that the decorator wraps, \<open>schedule\<close> and \<open>count\<close>, leave the events
  of the wrapper alone.
\<close>

lemma schedule_body_frame:
  "\<forall>batch s. wrapper_events (snd (snd (schedule_body c batch s))) = wrapper_events s"
proof (intro allI)
  fix batch s
  obtain r b s' where "schedule_body c batch s = (r, b, s')"
    by (cases "schedule_body c batch s") auto
  then show "wrapper_events (snd (snd (schedule_body c batch s))) = wrapper_events s"
    using schedule_body_frame' by simp
qed

lemma count_body_frame:
  "\<forall>u s. wrapper_events (snd (snd (count_body u s))) = wrapper_events s"
  by (auto simp: count_body_def wrapper_events_def storage_op_def split: bool.splits)

text \<open>
  Claim C4: a function wrapped by \<open>retry_and_rollback\<close> (\<open>schedule\<close>, \<open>count\<close>) is called
  until it returns, at most five times. When the wrapper raises, exactly five calls
  were made, each followed by the logging of its exception, a session rollback and a
  wait of 5 seconds, and the exception raised is the one of the fifth call; this is what
  happens when every call raises. When a call returns, its result is returned and
  nothing follows that call.
\<close>

theorem retry_and_rollback_attempts:
  assumes frame: "\<forall>m s. wrapper_events (snd (snd (func m s))) = wrapper_events s"
    and call: "retry_and_rollback func m s = (res, m', s')"
  shows "(case res of
            Inl exc \<Rightarrow>
              \<exists>es. length es = 5 \<and> last es = exc \<and>
                   wrapper_events s' = wrapper_events s @ concat (map failed_attempt es)
          | Inr v \<Rightarrow>
              \<exists>es m0 s0. length es < 5 \<and>
                   wrapper_events s'
                     = wrapper_events s @ concat (map failed_attempt es) @ [Attempt] \<and>
                   func m0 s0 = (Inr v, m', s')) \<and>
         ((\<forall>m s. isl (fst (func m s))) \<longrightarrow> isl res)"
proof -
  from call have w: "func_wrapper func (int (Suc 4)) m s = (res, m', s')"
    by (simp add: retry_and_rollback_def)
  note T = func_wrapper_trace [of func 4 m s res m' s', OF frame w]
  have 1: "case res of
            Inl exc \<Rightarrow>
              \<exists>es. length es = 5 \<and> last es = exc \<and>
                   wrapper_events s' = wrapper_events s @ concat (map failed_attempt es)
          | Inr v \<Rightarrow>
              \<exists>es m0 s0. length es < 5 \<and>
                   wrapper_events s'
                     = wrapper_events s @ concat (map failed_attempt es) @ [Attempt] \<and>
                   func m0 s0 = (Inr v, m', s')"
  proof (cases res)
    case (Inl exc)
    with T show ?thesis by simp
  next
    case (Inr v)
    with T obtain es m0 s0 where "length es \<le> 4"
      "wrapper_events s' = wrapper_events s @ concat (map failed_attempt es) @ [Attempt]"
      "func m0 s0 = (Inr v, m', s')" by auto
    then have "length es < 5 \<and>
        wrapper_events s' = wrapper_events s @ concat (map failed_attempt es) @ [Attempt] \<and>
        func m0 s0 = (Inr v, m', s')" by simp
    then show ?thesis unfolding Inr sum.case by blast
  qed
  have 2: "isl res" if all: "\<forall>m s. isl (fst (func m s))"
  proof (cases res)
    case (Inl exc)
    then show ?thesis by simp
  next
    case (Inr v)
    with 1 obtain m0 s0 where "func m0 s0 = (Inr v, m', s')" by auto
    with all [rule_format, of m0 s0] show ?thesis by simp
  qed
  from 1 2 show ?thesis by blast
qed

lemma sample_count_fails:
  "count_queue (sample_state [sample_row 1 ''a'' 5 0 30] 100 [0, 1, 2, 3, 4])
   = (Inl StorageError, (),
      (sample_state [sample_row 1 ''a'' 5 0 30] 125 [0, 1, 2, 3, 4])
        \<lparr>s_ops := 5,
          s_trace := failed_attempt StorageError @ [LogInfo 4] @
                     failed_attempt StorageError @ [LogInfo 3] @
                     failed_attempt StorageError @ [LogInfo 2] @
                     failed_attempt StorageError @ [LogInfo 1] @
                     failed_attempt StorageError\<rparr>)"
  by (simp add: count_queue_def retry_and_rollback_def func_wrapper.simps count_body_def
        storage_op_def emit_def sleep_def session_rollback_def sample_state_def
        failed_attempt_def)

lemma sample_count_recovers:
  "count_queue (sample_state [sample_row 1 ''a'' 5 0 30] 100 [0, 1])
   = (Inr 1, (),
      (sample_state [sample_row 1 ''a'' 5 0 30] 110 [0, 1])
        \<lparr>s_ops := 3,
          s_trace := failed_attempt StorageError @ [LogInfo 4] @
                     failed_attempt StorageError @ [LogInfo 3] @ [Attempt]\<rparr>)"
  by (simp add: count_queue_def retry_and_rollback_def func_wrapper.simps count_body_def
        storage_op_def emit_def sleep_def session_rollback_def sample_state_def
        failed_attempt_def)

theorem retry_and_rollback_attempts_witness:
  "fst (count_queue (sample_state [sample_row 1 ''a'' 5 0 30] 100 [0, 1, 2, 3, 4]))
     = Inl StorageError \<and>
   wrapper_events (snd (snd (count_queue (sample_state [sample_row 1 ''a'' 5 0 30] 100 [0, 1, 2, 3, 4]))))
     = concat (map failed_attempt
         [StorageError, StorageError, StorageError, StorageError, StorageError]) \<and>
   fst (count_queue (sample_state [sample_row 1 ''a'' 5 0 30] 100 [0, 1])) = Inr 1 \<and>
   wrapper_events (snd (snd (count_queue (sample_state [sample_row 1 ''a'' 5 0 30] 100 [0, 1]))))
     = concat (map failed_attempt [StorageError, StorageError]) @ [Attempt]"
proof -
  let ?s5 = "sample_state [sample_row 1 ''a'' 5 0 30] 100 [0, 1, 2, 3, 4]"
  let ?s2 = "sample_state [sample_row 1 ''a'' 5 0 30] 100 [0, 1]"
  note T = retry_and_rollback_attempts
             [OF count_body_frame sample_count_fails [unfolded count_queue_def]]
  have 1: "fst (count_queue ?s5) = Inl StorageError"
    by (subst sample_count_fails) simp
  have 2: "wrapper_events (snd (snd (count_queue ?s5)))
     = concat (map failed_attempt
         [StorageError, StorageError, StorageError, StorageError, StorageError])"
    by (subst sample_count_fails) (simp add: wrapper_events_def failed_attempt_def)
  have 3: "fst (count_queue ?s2) = Inr 1"
    by (subst sample_count_recovers) simp
  have 4: "wrapper_events (snd (snd (count_queue ?s2)))
     = concat (map failed_attempt [StorageError, StorageError]) @ [Attempt]"
    by (subst sample_count_recovers) (simp add: wrapper_events_def failed_attempt_def)
  from T 1 2 3 4 show ?thesis by blast
qed

subsection \<open>Failure while releasing\<close>

text \<open>
  When one of the three statements of \<open>get_next_requests\<close> fails, the exception is logged
  and not raised, and the session is rolled back. The list returned is empty only when
  the query itself failed; otherwise it holds the requests of all selected records.
\<close>

lemma get_next_requests_on_failure:
  assumes fail: "s_ops s \<in> set (s_fail_ops s) \<or> Suc (s_ops s) \<in> set (s_fail_ops s) \<or>
                 Suc (Suc (s_ops s)) \<in> set (s_fail_ops s)"
    and call: "get_next_requests c max_n partition_id s = (results, s')"
  shows "s_rows s' = s_committed s \<and> s_committed s' = s_committed s \<and>
         s_trace s' = s_trace s @ [LogException StorageError, Rollback] \<and>
         results = (if s_ops s \<in> set (s_fail_ops s) then []
                    else map request_from_record
                           (select_rows (s_clock s) max_n partition_id (s_rows s)))"
proof (cases "s_ops s \<in> set (s_fail_ops s)")
  case True
  with call show ?thesis
    by (auto simp: get_next_requests_def query_next_requests_def storage_op_def
          on_exception_def session_rollback_def emit_def)
next
  case q: False
  show ?thesis
  proof (cases "Suc (s_ops s) \<in> set (s_fail_ops s)")
    case True
    with q call show ?thesis
      by (auto simp: get_next_requests_def query_next_requests_def storage_op_def
            bulk_save_objects_def release_loop_map
            on_exception_def session_rollback_def emit_def)
  next
    case False
    with q fail have "Suc (Suc (s_ops s)) \<in> set (s_fail_ops s)" by simp
    with q False call show ?thesis
      by (auto simp: get_next_requests_def query_next_requests_def storage_op_def
            bulk_save_objects_def session_commit_def release_loop_map
            on_exception_def session_rollback_def emit_def)
  qed
qed

text \<open>
  Claim C1 on the code: one row is due and the commit (the third statement of the call)
  fails. The session is rolled back, so the row keeps its \<open>crawl_at\<close>, and the call
  returns the request built from the row, not an empty list.
\<close>

theorem get_next_requests_commit_failure:
  "get_next_requests sample_conf 10 0
     (sample_state [sample_row 1 ''a'' 5 0 30] 100 [2])
   = ([request_from_record (sample_row 1 ''a'' 5 0 30)],
      (sample_state [sample_row 1 ''a'' 5 0 30] 100 [2])
        \<lparr>s_ops := 3, s_trace := [LogException StorageError, Rollback]\<rparr>) \<and>
   request_from_record (sample_row 1 ''a'' 5 0 30)
     = sample_request (Some 1) (Some 1) ''a''"
  by (simp add: get_next_requests_def query_next_requests_def bulk_save_objects_def
        session_commit_def storage_op_def select_rows_def eligible_def order_key_def
        save_object_def sample_state_def sample_row_def sample_conf_def on_exception_def
        session_rollback_def emit_def request_from_record_def sample_request_def
        sample_meta_def)

subsection \<open>The loop of schedule\<close>

lemma mark_entry_idem: "mark_entry (mark_entry e) = mark_entry e"
  by (cases e) (simp add: mark_entry_def set_state_def)

lemma mark_entry_unscheduled: "\<not> should_schedule e \<Longrightarrow> mark_entry e = e"
  by (cases e) (simp add: mark_entry_def should_schedule_def)

lemma should_schedule_mark [simp]: "should_schedule (mark_entry e) = should_schedule e"
  by (cases e) (simp add: mark_entry_def should_schedule_def)

lemma schedule_entry_unscheduled:
  "\<not> should_schedule e \<Longrightarrow> schedule_entry c e ts s = (e, Inr ts, s)"
  by (cases e) (simp add: schedule_entry_def should_schedule_def)

lemma schedule_entry_result:
  "schedule_entry c e ts s = (e', r, s') \<Longrightarrow>
     (case r of Inl exc \<Rightarrow> e' = e | Inr ts' \<Rightarrow> e' = mark_entry e)"
  by (cases e)
     (auto simp: schedule_entry_def mark_entry_def
           split: if_splits prod.splits sum.splits option.splits)

lemma schedule_loop_marks:
  "schedule_loop c batch ts s = (b', r, s') \<Longrightarrow>
     list_all2 (\<lambda>e e'. e' = e \<or> e' = mark_entry e) batch b' \<and>
     (case r of Inl exc \<Rightarrow> True | Inr ts' \<Rightarrow> b' = map mark_entry batch)"
proof (induction batch arbitrary: ts s b' r s')
  case Nil
  then show ?case by auto
next
  case (Cons e rest)
  obtain e' r1 s1 where e: "schedule_entry c e ts s = (e', r1, s1)"
    by (cases "schedule_entry c e ts s") auto
  note m = schedule_entry_result [OF e]
  show ?case
  proof (cases r1)
    case (Inl exc)
    with Cons.prems e m have "b' = e # rest" "r = Inl exc" by auto
    then show ?thesis by (simp add: list_all2_refl)
  next
    case (Inr ts1)
    with Cons.prems e obtain b where b: "schedule_loop c rest ts1 s1 = (b, r, s')"
      and b': "b' = e' # b"
      by (auto split: prod.splits)
    from Cons.IH [OF b] m Inr b' show ?thesis
      by (auto split: sum.splits)
  qed
qed

lemma schedule_loop_filter:
  "schedule_loop c batch ts s = (b', r, s') \<Longrightarrow>
     schedule_loop c (filter should_schedule batch) ts s = (filter should_schedule b', r, s')"
proof (induction batch arbitrary: ts s b' r s')
  case Nil
  then show ?case by auto
next
  case (Cons e rest)
  show ?case
  proof (cases "should_schedule e")
    case False
    with Cons.prems obtain b where b: "schedule_loop c rest ts s = (b, r, s')"
      and b': "b' = e # b"
      by (auto simp: schedule_entry_unscheduled split: prod.splits)
    from Cons.IH [OF b] False b' show ?thesis by simp
  next
    case True
    obtain e' r1 s1 where e: "schedule_entry c e ts s = (e', r1, s1)"
      by (cases "schedule_entry c e ts s") auto
    note m = schedule_entry_result [OF e]
    show ?thesis
    proof (cases r1)
      case (Inl exc)
      with Cons.prems e m have *: "b' = e # rest" "r = Inl exc" "s' = s1" "e' = e" by auto
      with True e Inl show ?thesis by simp
    next
      case (Inr ts1)
      with Cons.prems e obtain b where b: "schedule_loop c rest ts1 s1 = (b, r, s')"
        and b': "b' = e' # b"
        by (auto split: prod.splits)
      from m Inr have "should_schedule e'" using True by simp
      with Cons.IH [OF b] True e Inr b' show ?thesis by simp
    qed
  qed
qed

lemma schedule_body_filter:
  "schedule_body c batch s = (r, b', s') \<Longrightarrow>
     schedule_body c (filter should_schedule batch) s = (r, filter should_schedule b', s')"
proof -
  assume a: "schedule_body c batch s = (r, b', s')"
  obtain b1 r1 s1 where l: "schedule_loop c batch [] s = (b1, r1, s1)"
    by (cases "schedule_loop c batch [] s") auto
  note f = schedule_loop_filter [OF l]
  from a l have "b' = b1" by (auto simp: schedule_body_def split: sum.splits prod.splits)
  with a l f show ?thesis
    by (auto simp: schedule_body_def split: sum.splits prod.splits)
qed

lemma schedule_body_marks:
  "schedule_body c batch s = (r, b', s') \<Longrightarrow>
     list_all2 (\<lambda>e e'. e' = e \<or> e' = mark_entry e) batch b' \<and>
     (case r of Inl exc \<Rightarrow> True | Inr _ \<Rightarrow> b' = map mark_entry batch)"
proof -
  assume a: "schedule_body c batch s = (r, b', s')"
  obtain b1 r1 s1 where l: "schedule_loop c batch [] s = (b1, r1, s1)"
    by (cases "schedule_loop c batch [] s") auto
  note f = schedule_loop_marks [OF l]
  from a l have "b' = b1" by (auto simp: schedule_body_def split: sum.splits prod.splits)
  with a l f show ?thesis
    by (auto simp: schedule_body_def split: sum.splits prod.splits)
qed

lemma func_wrapper_unfold:
  assumes "func m (emit Attempt s) = (r1, m1, s1)"
  shows "func_wrapper func tries m s =
     (case r1 of
        Inr v \<Rightarrow> (Inr v, m1, s1)
      | Inl exc \<Rightarrow>
          if tries - 1 > 0
          then func_wrapper func (tries - 1) m1
                 (emit (LogInfo (tries - 1))
                    (sleep 5 (session_rollback (emit (LogException exc) s1))))
          else (Inl exc, m1, sleep 5 (session_rollback (emit (LogException exc) s1))))"
  using assms by (subst func_wrapper.simps) (simp add: Let_def split: sum.splits)

text \<open>What holds of the arguments before a wrapped call and is kept by the function
  holds after the wrapper.\<close>

lemma func_wrapper_invariant:
  assumes step: "\<And>m s. I m \<Longrightarrow> I (fst (snd (func m s)))"
  shows "I m \<Longrightarrow> I (fst (snd (func_wrapper func tries m s)))"
proof (induction "nat tries" arbitrary: tries m s)
  case 0
  obtain r1 m1 s1 where f: "func m (emit Attempt s) = (r1, m1, s1)"
    by (cases "func m (emit Attempt s)") auto
  from 0 have t: "\<not> tries - 1 > 0" by simp
  from step [of m "emit Attempt s"] "0.prems" f have "I m1" by simp
  then show ?case
    unfolding func_wrapper_unfold [where func=func and m=m and s=s, OF f] using t by (cases r1) simp_all
next
  case (Suc n)
  obtain r1 m1 s1 where f: "func m (emit Attempt s) = (r1, m1, s1)"
    by (cases "func m (emit Attempt s)") auto
  from step [of m "emit Attempt s"] Suc.prems f have I1: "I m1" by simp
  show ?case
  proof (cases "tries - 1 > 0")
    case False
    with I1 show ?thesis
      unfolding func_wrapper_unfold [where func=func and m=m and s=s, OF f] by (cases r1) simp_all
  next
    case True
    from Suc.hyps(2) have n: "n = nat (tries - 1)" by simp
    have IH: "I (fst (snd (func_wrapper func (tries - 1) m1 s2)))" for s2
      using Suc.hyps(1) [of "tries - 1" m1 s2] n I1 by simp
    show ?thesis
      unfolding func_wrapper_unfold [where func=func and m=m and s=s, OF f] using True I1 IH by (cases r1) simp_all
  qed
qed

text \<open>Two wrapped functions that agree step by step agree after the wrapper.\<close>

lemma func_wrapper_simulation:
  assumes step: "\<And>m m2 s r m' s'. R m m2 \<Longrightarrow> func m s = (r, m', s') \<Longrightarrow>
                   \<exists>m2'. func2 m2 s = (r, m2', s') \<and> R m' m2'"
  shows "R m m2 \<Longrightarrow> func_wrapper func tries m s = (r, m', s') \<Longrightarrow>
           \<exists>m2'. func_wrapper func2 tries m2 s = (r, m2', s') \<and> R m' m2'"
proof (induction "nat tries" arbitrary: tries m m2 s)
  case 0
  then have t: "\<not> tries - 1 > 0" by simp
  obtain r1 m1 s1 where f: "func m (emit Attempt s) = (r1, m1, s1)"
    by (cases "func m (emit Attempt s)") auto
  from step [of m m2 "emit Attempt s" r1 m1 s1] "0.prems"(1) f obtain m2' where
    f2: "func2 m2 (emit Attempt s) = (r1, m2', s1)" and R: "R m1 m2'" by auto
  from "0.prems"(2) R t show ?case
    unfolding func_wrapper_unfold [where func=func and m=m and s=s, OF f] func_wrapper_unfold [where func=func2 and m=m2 and s=s, OF f2]
    by (cases r1) auto
next
  case (Suc n)
  obtain r1 m1 s1 where f: "func m (emit Attempt s) = (r1, m1, s1)"
    by (cases "func m (emit Attempt s)") auto
  from step [of m m2 "emit Attempt s" r1 m1 s1] Suc.prems(1) f obtain m2' where
    f2: "func2 m2 (emit Attempt s) = (r1, m2', s1)" and R: "R m1 m2'" by auto
  show ?case
  proof (cases "tries - 1 > 0")
    case False
    from Suc.prems(2) R False show ?thesis
      unfolding func_wrapper_unfold [where func=func and m=m and s=s, OF f] func_wrapper_unfold [where func=func2 and m=m2 and s=s, OF f2]
      by (cases r1) auto
  next
    case True
    from Suc.hyps(2) have n: "n = nat (tries - 1)" by simp
    have IH: "\<exists>m2''. func_wrapper func2 (tries - 1) m2' s2 = (r, m2'', s') \<and> R m' m2''"
      if "func_wrapper func (tries - 1) m1 s2 = (r, m', s')" for s2
      using Suc.hyps(1) [of "tries - 1" m1 m2' s2] n R that by simp
    show ?thesis
    proof (cases r1)
      case (Inr v)
      with Suc.prems(2) R show ?thesis
        unfolding func_wrapper_unfold [where func=func and m=m and s=s, OF f] func_wrapper_unfold [where func=func2 and m=m2 and s=s, OF f2] by auto
    next
      case (Inl exc)
      with Suc.prems(2) True have
        "func_wrapper func (tries - 1) m1
           (emit (LogInfo (tries - 1))
              (sleep 5 (session_rollback (emit (LogException exc) s1)))) = (r, m', s')"
        unfolding func_wrapper_unfold [where func=func and m=m and s=s, OF f] by simp
      from IH [OF this] Inl True show ?thesis
        unfolding func_wrapper_unfold [where func=func2 and m=m2 and s=s, OF f2] by simp
    qed
  qed
qed

text \<open>
  Claim C10: an entry of the batch with \<open>should_schedule = false\<close> is left as it is by
  \<open>schedule\<close> (its request's meta, \<open>meta[b'state']\<close> included, is not touched), and the call
  does to the queue exactly what it does for the batch without such entries: same
  outcome, same table, same statements sent to the storage. No score is updated for
  such an entry, whatever the docstring of \<open>Queue.schedule\<close> says.
\<close>

theorem schedule_skips_unscheduled:
  assumes call: "schedule c batch s = (res, batch', s')"
  shows "length batch' = length batch \<and>
         (\<forall>i < length batch. \<not> should_schedule (batch ! i) \<longrightarrow> batch' ! i = batch ! i) \<and>
         schedule c (filter should_schedule batch) s
           = (res, filter should_schedule batch', s')"
proof -
  let ?I = "list_all2 (\<lambda>e e'. e' = e \<or> e' = mark_entry e) batch"
  have step: "?I (fst (snd (schedule_body c m t)))" if "?I m" for m t
  proof -
    obtain r b u where b: "schedule_body c m t = (r, b, u)"
      by (cases "schedule_body c m t") auto
    from schedule_body_marks [OF b]
    have "list_all2 (\<lambda>e e'. e' = e \<or> e' = mark_entry e) m b" by simp
    with that have "?I b"
      unfolding list_all2_conv_all_nth
      by (metis mark_entry_idem)
    with b show ?thesis by simp
  qed
  have "?I batch" by (simp add: list_all2_refl)
  from func_wrapper_invariant [where I="?I" and func="schedule_body c", OF step this,
         of 5 s] call
  have inv: "?I batch'" by (simp add: schedule_def retry_and_rollback_def)
  then have len: "length batch' = length batch"
    by (simp add: list_all2_lengthD)
  have same: "batch' ! i = batch ! i" if "i < length batch" "\<not> should_schedule (batch ! i)" for i
    using inv that by (auto simp: list_all2_conv_all_nth mark_entry_unscheduled)
  have sim: "\<exists>m2'. schedule_body c m2 t = (r, m2', t') \<and> m2' = filter should_schedule m'"
    if "m2 = filter should_schedule m" "schedule_body c m t = (r, m', t')" for m m2 t r m' t'
    using that schedule_body_filter by simp
  from func_wrapper_simulation
         [where R="\<lambda>m m2. m2 = filter should_schedule m" and func="schedule_body c"
            and ?func2.0="schedule_body c" and m=batch and ?m2.0="filter should_schedule batch"
            and tries=5 and s=s and r=res and m'=batch' and s'=s', OF sim]
       call
  have "schedule c (filter should_schedule batch) s = (res, filter should_schedule batch', s')"
    by (simp add: schedule_def retry_and_rollback_def)
  with len same show ?thesis by simp
qed


lemma sample_schedule_mixed:
  "schedule sample_conf
     [(''a'', 1, sample_request (Some 0) None ''a'', False),
      (''b'', 2, sample_request (Some 0) None ''b'', True)]
     (sample_state [] 100 [])
   = (Inr (),
      [(''a'', 1, sample_request (Some 0) None ''a'', False),
       (''b'', 2, sample_request (Some 1) None ''b'', True)],
      (sample_state
         [(sample_row 1 ''b'' 2 0 100)\<lparr>q_host_crc32 := 20, q_created_at := 100000000\<rparr>]
         100 [])\<lparr>s_ops := 2, s_trace := [Attempt]\<rparr>)"
  by (simp add: schedule_def retry_and_rollback_def func_wrapper.simps schedule_body_def
        schedule_entry_def request_data_def Partitioner_partition_def partition_index_def
        HASH_MASK_def bulk_save_objects_def session_commit_def storage_op_def
        save_object_def fresh_id_def set_state_def QUEUED_def emit_def
        sample_conf_def sample_state_def sample_request_def sample_meta_def sample_row_def)

theorem schedule_skips_unscheduled_witness:
  "schedule sample_conf
     [(''a'', 1, sample_request (Some 0) None ''a'', False),
      (''b'', 2, sample_request (Some 0) None ''b'', True)]
     (sample_state [] 100 [])
   = (Inr (),
      [(''a'', 1, sample_request (Some 0) None ''a'', False),
       (''b'', 2, sample_request (Some 1) None ''b'', True)],
      (sample_state
         [(sample_row 1 ''b'' 2 0 100)\<lparr>q_host_crc32 := 20, q_created_at := 100000000\<rparr>]
         100 [])\<lparr>s_ops := 2, s_trace := [Attempt]\<rparr>) \<and>
   \<not> should_schedule (''a'', 1, sample_request (Some 0) None ''a'', False) \<and>
   schedule sample_conf
     [(''b'', 2, sample_request (Some 0) None ''b'', True)]
     (sample_state [] 100 [])
   = (Inr (),
      [(''b'', 2, sample_request (Some 1) None ''b'', True)],
      (sample_state
         [(sample_row 1 ''b'' 2 0 100)\<lparr>q_host_crc32 := 20, q_created_at := 100000000\<rparr>]
         100 [])\<lparr>s_ops := 2, s_trace := [Attempt]\<rparr>)"
  using schedule_skips_unscheduled [OF sample_schedule_mixed] sample_schedule_mixed
  by (simp add: should_schedule_def)

subsection \<open>The scheduling backend\<close>

lemma schedule_request_not_crawled:
  "m_state (r_meta r) = Some NOT_CRAWLED \<Longrightarrow> m_fingerprint (r_meta r) = Some fp \<Longrightarrow>
     schedule_request iv gs now r
       = (set_crawl_at now r, Inr (Some (fp, gs (set_crawl_at now r), set_crawl_at now r, True)))"
  by (simp add: schedule_request_def append_entry_def set_crawl_at_def)

lemma schedule_request_revisit:
  "m_state (r_meta r) = Some CRAWLED \<or> m_state (r_meta r) = Some ERROR \<Longrightarrow>
   m_fingerprint (r_meta r) = Some fp \<Longrightarrow>
     schedule_request iv gs now r
       = (set_crawl_at (now + iv) r,
          Inr (Some (fp, gs (set_crawl_at (now + iv) r), set_crawl_at (now + iv) r, True)))"
  by (auto simp: schedule_request_def append_entry_def set_crawl_at_def
        NOT_CRAWLED_def CRAWLED_def ERROR_def)

lemma schedule_request_queued:
  "m_state (r_meta r) = Some QUEUED \<Longrightarrow> schedule_request iv gs now r = (r, Inr None)"
  by (simp add: schedule_request_def NOT_CRAWLED_def CRAWLED_def ERROR_def QUEUED_def)

lemma schedule_request_Inr:
  "m_state (r_meta r) \<noteq> None \<Longrightarrow> m_fingerprint (r_meta r) \<noteq> None \<Longrightarrow>
     \<exists>e. snd (schedule_request iv gs now r) = Inr e"
  by (auto simp: schedule_request_def append_entry_def set_crawl_at_def)

lemma batch_loop_closed:
  assumes "\<forall>r \<in> set requests. m_state (r_meta r) \<noteq> None \<and> m_fingerprint (r_meta r) \<noteq> None"
  shows "batch_loop iv gs now requests batch
     = (map (\<lambda>r. fst (schedule_request iv gs now r)) requests,
        Inr (batch @ concat (map (\<lambda>r. case snd (schedule_request iv gs now r) of
                                         Inr (Some e) \<Rightarrow> [e] | _ \<Rightarrow> []) requests)))"
  using assms
proof (induction requests arbitrary: batch)
  case Nil
  then show ?case by simp
next
  case (Cons r rest)
  from Cons.prems have "m_state (r_meta r) \<noteq> None" "m_fingerprint (r_meta r) \<noteq> None"
    by auto
  from schedule_request_Inr [OF this, of iv gs now]
  obtain r' e where b: "schedule_request iv gs now r = (r', Inr e)"
    by (cases "schedule_request iv gs now r") auto
  from Cons.prems have rest: "\<forall>r \<in> set rest. m_state (r_meta r) \<noteq> None \<and> m_fingerprint (r_meta r) \<noteq> None"
    by simp
  show ?case
    by (cases e) (simp_all add: b Cons.IH [OF rest])
qed

lemma func_wrapper_success:
  assumes step: "\<And>m s. I m \<Longrightarrow> I (fst (snd (func m s)))"
  shows "I m \<Longrightarrow> func_wrapper func tries m s = (Inr v, m', s') \<Longrightarrow>
           \<exists>m0 s0. I m0 \<and> func m0 s0 = (Inr v, m', s')"
proof (induction "nat tries" arbitrary: tries m s)
  case 0
  obtain r1 m1 s1 where f: "func m (emit Attempt s) = (r1, m1, s1)"
    by (cases "func m (emit Attempt s)") auto
  from 0 have t: "\<not> tries - 1 > 0" by simp
  from "0.prems"(2) t have "r1 = Inr v \<and> m1 = m' \<and> s1 = s'"
    unfolding func_wrapper_unfold [where func=func and m=m and s=s, OF f]
    by (cases r1) auto
  with f "0.prems"(1) show ?case by blast
next
  case (Suc n)
  obtain r1 m1 s1 where f: "func m (emit Attempt s) = (r1, m1, s1)"
    by (cases "func m (emit Attempt s)") auto
  from step [of m "emit Attempt s"] Suc.prems(1) f have I1: "I m1" by simp
  show ?case
  proof (cases r1)
    case (Inr w)
    with Suc.prems(2) have "w = v \<and> m1 = m' \<and> s1 = s'"
      unfolding func_wrapper_unfold [where func=func and m=m and s=s, OF f] by simp
    with f Inr Suc.prems(1) show ?thesis by blast
  next
    case (Inl exc)
    with Suc.prems(2) have t: "tries - 1 > 0"
      and rec: "func_wrapper func (tries - 1) m1
           (emit (LogInfo (tries - 1))
              (sleep 5 (session_rollback (emit (LogException exc) s1)))) = (Inr v, m', s')"
      unfolding func_wrapper_unfold [where func=func and m=m and s=s, OF f]
      by (auto split: if_splits)
    from Suc.hyps(2) have n: "n = nat (tries - 1)" by simp
    from Suc.hyps(1) [OF n I1 rec] show ?thesis .
  qed
qed

lemma schedule_success_marks:
  assumes "schedule c batch s = (Inr u, batch', s')"
  shows "batch' = map mark_entry batch"
proof -
  let ?I = "list_all2 (\<lambda>e e'. e' = e \<or> e' = mark_entry e) batch"
  have step: "?I (fst (snd (schedule_body c m t)))" if "?I m" for m t
  proof -
    obtain r b u where b: "schedule_body c m t = (r, b, u)"
      by (cases "schedule_body c m t") auto
    from schedule_body_marks [OF b]
    have "list_all2 (\<lambda>e e'. e' = e \<or> e' = mark_entry e) m b" by simp
    with that have "?I b"
      unfolding list_all2_conv_all_nth
      by (metis mark_entry_idem)
    with b show ?thesis by simp
  qed
  have "?I batch" by (simp add: list_all2_refl)
  from func_wrapper_success [where I="?I" and func="schedule_body c", OF step this] assms
  obtain m0 s0 where I0: "?I m0" and b: "schedule_body c m0 s0 = (Inr u, batch', s')"
    unfolding schedule_def retry_and_rollback_def by blast
  from schedule_body_marks [OF b] have "batch' = map mark_entry m0" by simp
  also have "map mark_entry m0 = map mark_entry batch"
  proof (rule nth_equalityI)
    from I0 show "length (map mark_entry m0) = length (map mark_entry batch)"
      by (simp add: list_all2_lengthD)
  next
    fix i assume "i < length (map mark_entry m0)"
    with I0 have i: "i < length batch" "i < length m0"
      and "m0 ! i = batch ! i \<or> m0 ! i = mark_entry (batch ! i)"
      by (auto simp: list_all2_conv_all_nth)
    then have "mark_entry (m0 ! i) = mark_entry (batch ! i)"
      by (auto simp: mark_entry_idem)
    with i show "map mark_entry m0 ! i = map mark_entry batch ! i" by simp
  qed
  finally show ?thesis .
qed

lemma schedule_request_explicit:
  assumes "m_state (r_meta r) = Some st" and "m_fingerprint (r_meta r) = Some fp"
  shows "schedule_request iv gs now r
     = (if st = NOT_CRAWLED
        then (r\<lparr>r_meta := (r_meta r)\<lparr>m_crawl_at := Some now\<rparr>\<rparr>,
              Inr (Some (fp, gs (r\<lparr>r_meta := (r_meta r)\<lparr>m_crawl_at := Some now\<rparr>\<rparr>),
                         r\<lparr>r_meta := (r_meta r)\<lparr>m_crawl_at := Some now\<rparr>\<rparr>, True)))
        else if st = CRAWLED \<or> st = ERROR
        then (r\<lparr>r_meta := (r_meta r)\<lparr>m_crawl_at := Some (now + iv)\<rparr>\<rparr>,
              Inr (Some (fp, gs (r\<lparr>r_meta := (r_meta r)\<lparr>m_crawl_at := Some (now + iv)\<rparr>\<rparr>),
                         r\<lparr>r_meta := (r_meta r)\<lparr>m_crawl_at := Some (now + iv)\<rparr>\<rparr>, True)))
        else (r, Inr None))"
  using assms
  by (auto simp: schedule_request_def append_entry_def set_crawl_at_def)

lemma batch_loop_explicit:
  assumes keys: "\<forall>r \<in> set requests. m_state (r_meta r) \<noteq> None \<and> m_fingerprint (r_meta r) \<noteq> None"
    and upd: "upd = (\<lambda>r. if m_state (r_meta r) = Some NOT_CRAWLED
                         then r\<lparr>r_meta := (r_meta r)\<lparr>m_crawl_at := Some now\<rparr>\<rparr>
                         else if m_state (r_meta r) = Some CRAWLED \<or>
                                 m_state (r_meta r) = Some ERROR
                         then r\<lparr>r_meta := (r_meta r)\<lparr>m_crawl_at := Some (now + iv)\<rparr>\<rparr>
                         else r)"
  shows "batch_loop iv gs now requests batch
     = (map upd requests,
        Inr (batch @ map (\<lambda>r. (the (m_fingerprint (r_meta r)), gs (upd r), upd r, True))
                       (filter (\<lambda>r. m_state (r_meta r) = Some NOT_CRAWLED \<or>
                                     m_state (r_meta r) = Some CRAWLED \<or>
                                     m_state (r_meta r) = Some ERROR) requests)))"
  using keys
proof (induction requests arbitrary: batch)
  case Nil
  then show ?case by simp
next
  case (Cons r rest)
  from Cons.prems obtain st fp where st: "m_state (r_meta r) = Some st"
    and fp: "m_fingerprint (r_meta r) = Some fp" by auto
  from Cons.prems have rest: "\<forall>r \<in> set rest. m_state (r_meta r) \<noteq> None \<and> m_fingerprint (r_meta r) \<noteq> None"
    by simp
  note IH = Cons.IH [OF rest]
  note E = schedule_request_explicit [OF st fp, of iv gs now]
  consider "st = NOT_CRAWLED" | "st \<noteq> NOT_CRAWLED" "st = CRAWLED \<or> st = ERROR"
    | "st \<noteq> NOT_CRAWLED" "st \<noteq> CRAWLED" "st \<noteq> ERROR" by blast
  then show ?case
  proof cases
    case 1
    with E st fp show ?thesis by (simp add: IH upd)
  next
    case 2
    with E st fp show ?thesis by (auto simp: IH upd)
  next
    case 3
    with E st fp show ?thesis by (simp add: IH upd)
  qed
qed

lemma batch_entries_scheduled:
  "\<forall>e \<in> set (map (\<lambda>r. (f r, g r, h r, True)) rs). should_schedule e"
  by (simp add: should_schedule_def)

text \<open>
  Claim C5: \<open>Backend._schedule\<close> sets \<open>meta[b'crawl_at']\<close> of a request in state NOT_CRAWLED
  to now, and of a request in state CRAWLED or ERROR to now plus the revisit interval,
  and changes nothing else of it; a request in state QUEUED is left as it is and gives
  no entry. The batch holds, in order, one entry (fingerprint, score, request, True) for
  every other request; it is the batch that \<open>queue.schedule\<close> receives, and
  \<open>metadata.update_score\<close> receives it as \<open>queue.schedule\<close> leaves it (\<open>meta[b'state']\<close> of each
  request set to QUEUED). Every request carries a state and a fingerprint.
\<close>

theorem backend_schedule_batch:
  assumes keys: "\<forall>r \<in> set requests. m_state (r_meta r) \<noteq> None \<and> m_fingerprint (r_meta r) \<noteq> None"
    and now: "now = s_clock (b_queue b)"
    and upd: "upd = (\<lambda>r. if m_state (r_meta r) = Some NOT_CRAWLED
                         then r\<lparr>r_meta := (r_meta r)\<lparr>m_crawl_at := Some now\<rparr>\<rparr>
                         else if m_state (r_meta r) = Some CRAWLED \<or>
                                 m_state (r_meta r) = Some ERROR
                         then r\<lparr>r_meta := (r_meta r)\<lparr>m_crawl_at := Some (now + iv)\<rparr>\<rparr>
                         else r)"
    and batch: "batch = map (\<lambda>r. (the (m_fingerprint (r_meta r)), gs (upd r), upd r, True))
                          (filter (\<lambda>r. m_state (r_meta r) = Some NOT_CRAWLED \<or>
                                        m_state (r_meta r) = Some CRAWLED \<or>
                                        m_state (r_meta r) = Some ERROR) requests)"
  shows "(\<forall>r \<in> set requests.
            (m_state (r_meta r) = Some NOT_CRAWLED \<longrightarrow>
               m_crawl_at (r_meta (fst (schedule_request iv gs now r))) = Some now) \<and>
            (m_state (r_meta r) = Some CRAWLED \<or> m_state (r_meta r) = Some ERROR \<longrightarrow>
               m_crawl_at (r_meta (fst (schedule_request iv gs now r))) = Some (now + iv)) \<and>
            (m_state (r_meta r) = Some QUEUED \<longrightarrow>
               schedule_request iv gs now r = (r, Inr None)) \<and>
            schedule_request iv gs now r
              = (upd r,
                 Inr (if m_state (r_meta r) = Some NOT_CRAWLED \<or>
                         m_state (r_meta r) = Some CRAWLED \<or>
                         m_state (r_meta r) = Some ERROR
                      then Some (the (m_fingerprint (r_meta r)), gs (upd r), upd r, True)
                      else None))) \<and>
         batch_loop iv gs now requests [] = (map upd requests, Inr batch) \<and>
         backend_schedule c iv gs requests b
           = (case schedule c batch (b_queue b) of
                (Inl exc, batch', q') \<Rightarrow>
                  (Inl exc, map upd requests, batch', b\<lparr>b_queue := q'\<rparr>)
              | (Inr _, batch', q') \<Rightarrow>
                  (Inr (), map upd requests, batch',
                   b\<lparr>b_queue := q',
                     b_metadata_updates := b_metadata_updates b @ [batch'],
                     b_queue_size := b_queue_size b + int (length batch')\<rparr>)) \<and>
         (\<forall>u batch' q'. schedule c batch (b_queue b) = (Inr u, batch', q') \<longrightarrow>
            batch' = map (\<lambda>(fprint, score, r, flag).
                            (fprint, score, r\<lparr>r_meta := (r_meta r)\<lparr>m_state := Some QUEUED\<rparr>\<rparr>, flag))
                       batch)"
proof (intro conjI)
  show "\<forall>r \<in> set requests.
            (m_state (r_meta r) = Some NOT_CRAWLED \<longrightarrow>
               m_crawl_at (r_meta (fst (schedule_request iv gs now r))) = Some now) \<and>
            (m_state (r_meta r) = Some CRAWLED \<or> m_state (r_meta r) = Some ERROR \<longrightarrow>
               m_crawl_at (r_meta (fst (schedule_request iv gs now r))) = Some (now + iv)) \<and>
            (m_state (r_meta r) = Some QUEUED \<longrightarrow>
               schedule_request iv gs now r = (r, Inr None)) \<and>
            schedule_request iv gs now r
              = (upd r,
                 Inr (if m_state (r_meta r) = Some NOT_CRAWLED \<or>
                         m_state (r_meta r) = Some CRAWLED \<or>
                         m_state (r_meta r) = Some ERROR
                      then Some (the (m_fingerprint (r_meta r)), gs (upd r), upd r, True)
                      else None))"
  proof
    fix r assume "r \<in> set requests"
    with keys obtain st fp where st: "m_state (r_meta r) = Some st"
      and fp: "m_fingerprint (r_meta r) = Some fp" by auto
    note E = schedule_request_explicit [OF st fp, of iv gs now]
    show "(m_state (r_meta r) = Some NOT_CRAWLED \<longrightarrow>
               m_crawl_at (r_meta (fst (schedule_request iv gs now r))) = Some now) \<and>
            (m_state (r_meta r) = Some CRAWLED \<or> m_state (r_meta r) = Some ERROR \<longrightarrow>
               m_crawl_at (r_meta (fst (schedule_request iv gs now r))) = Some (now + iv)) \<and>
            (m_state (r_meta r) = Some QUEUED \<longrightarrow>
               schedule_request iv gs now r = (r, Inr None)) \<and>
            schedule_request iv gs now r
              = (upd r,
                 Inr (if m_state (r_meta r) = Some NOT_CRAWLED \<or>
                         m_state (r_meta r) = Some CRAWLED \<or>
                         m_state (r_meta r) = Some ERROR
                      then Some (the (m_fingerprint (r_meta r)), gs (upd r), upd r, True)
                      else None))"
      unfolding E upd using st fp
      by (auto simp: NOT_CRAWLED_def CRAWLED_def ERROR_def QUEUED_def)
  qed
  show loop: "batch_loop iv gs now requests [] = (map upd requests, Inr batch)"
    using batch_loop_explicit [OF keys upd, of gs "[]"] by (simp add: batch)
  show "backend_schedule c iv gs requests b
           = (case schedule c batch (b_queue b) of
                (Inl exc, batch', q') \<Rightarrow>
                  (Inl exc, map upd requests, batch', b\<lparr>b_queue := q'\<rparr>)
              | (Inr _, batch', q') \<Rightarrow>
                  (Inr (), map upd requests, batch',
                   b\<lparr>b_queue := q',
                     b_metadata_updates := b_metadata_updates b @ [batch'],
                     b_queue_size := b_queue_size b + int (length batch')\<rparr>))"
    using loop unfolding now backend_schedule_def by simp
  show "\<forall>u batch' q'. schedule c batch (b_queue b) = (Inr u, batch', q') \<longrightarrow>
            batch' = map (\<lambda>(fprint, score, r, flag).
                            (fprint, score, r\<lparr>r_meta := (r_meta r)\<lparr>m_state := Some QUEUED\<rparr>\<rparr>, flag))
                       batch"
  proof (intro allI impI)
    fix u batch' q'
    assume "schedule c batch (b_queue b) = (Inr u, batch', q')"
    from schedule_success_marks [OF this] have "batch' = map mark_entry batch" .
    also have "map mark_entry batch
        = map (\<lambda>(fprint, score, r, flag).
                 (fprint, score, r\<lparr>r_meta := (r_meta r)\<lparr>m_state := Some QUEUED\<rparr>\<rparr>, flag)) batch"
      unfolding batch by (simp add: mark_entry_def set_state_def)
    finally show "batch' = map (\<lambda>(fprint, score, r, flag).
                 (fprint, score, r\<lparr>r_meta := (r_meta r)\<lparr>m_state := Some QUEUED\<rparr>\<rparr>, flag)) batch" .
  qed
qed

theorem backend_schedule_batch_witness:
  "map (\<lambda>r. m_crawl_at (r_meta r))
     (fst (batch_loop 3600 (\<lambda>r. 1) 100
        [sample_request (Some 0) None ''a'', sample_request (Some 1) None ''b'',
         sample_request (Some 2) (Some 1) ''c'', sample_request (Some 3) None ''d''] []))
   = [Some 100, None, Some 3700, Some 3700] \<and>
   map_sum id (map (\<lambda>(fprint, score, r, flag). (fprint, score, m_crawl_at (r_meta r), flag)))
     (snd (batch_loop 3600 (\<lambda>r. 1) 100
        [sample_request (Some 0) None ''a'', sample_request (Some 1) None ''b'',
         sample_request (Some 2) (Some 1) ''c'', sample_request (Some 3) None ''d''] []))
   = Inr [(''a'', 1, Some 100, True), (''c'', 1, Some 3700, True),
          (''d'', 1, Some 3700, True)]"
proof -
  let ?rs = "[sample_request (Some 0) None ''a'', sample_request (Some 1) None ''b'',
      sample_request (Some 2) (Some 1) ''c'', sample_request (Some 3) None ''d'']"
  let ?b = "\<lparr>b_queue = sample_state [sample_row 1 ''c'' 1 0 50] 100 [],
      b_metadata_updates = [], b_queue_size = 1\<rparr>"
  have keys: "\<forall>r \<in> set ?rs. m_state (r_meta r) \<noteq> None \<and> m_fingerprint (r_meta r) \<noteq> None"
    by (simp add: sample_request_def sample_meta_def)
  have now: "100 = s_clock (b_queue ?b)"
    by (simp add: sample_state_def)
  note T = backend_schedule_batch [OF keys now refl refl, of 3600 "\<lambda>r. 1" sample_conf]
  from T have "batch_loop 3600 (\<lambda>r. 1) 100 ?rs []
      = (map (\<lambda>r. if m_state (r_meta r) = Some NOT_CRAWLED
                         then r\<lparr>r_meta := (r_meta r)\<lparr>m_crawl_at := Some 100\<rparr>\<rparr>
                         else if m_state (r_meta r) = Some CRAWLED \<or>
                                 m_state (r_meta r) = Some ERROR
                         then r\<lparr>r_meta := (r_meta r)\<lparr>m_crawl_at := Some (100 + 3600)\<rparr>\<rparr>
                         else r) ?rs,
         Inr (map (\<lambda>r. (the (m_fingerprint (r_meta r)), 1,
                 (if m_state (r_meta r) = Some NOT_CRAWLED
                         then r\<lparr>r_meta := (r_meta r)\<lparr>m_crawl_at := Some 100\<rparr>\<rparr>
                         else if m_state (r_meta r) = Some CRAWLED \<or>
                                 m_state (r_meta r) = Some ERROR
                         then r\<lparr>r_meta := (r_meta r)\<lparr>m_crawl_at := Some (100 + 3600)\<rparr>\<rparr>
                         else r), True))
                (filter (\<lambda>r. m_state (r_meta r) = Some NOT_CRAWLED \<or>
                                        m_state (r_meta r) = Some CRAWLED \<or>
                                        m_state (r_meta r) = Some ERROR) ?rs)))"
    by blast
  then show ?thesis
    by (simp add: NOT_CRAWLED_def CRAWLED_def ERROR_def sample_request_def sample_meta_def)
qed

subsection \<open>Scheduling when no statement fails\<close>






lemma entry_update_id [simp]: "q_id (entry_update c s e x) = q_id x"
  by (simp add: entry_update_def split: option.splits sum.splits)

lemma fold_entry_update_id [simp]: "q_id (fold (entry_update c s) batch x) = q_id x"
  by (induction batch arbitrary: x) simp_all








subsection \<open>Update in place and insert\<close>















subsection \<open>Requests without a partition key\<close>

text \<open>For a \<open>None\<close> key \<open>Partitioner.partition\<close> returns the first of the partitions in use.\<close>

lemma partition_no_key:
  "Partitioner_partition hash (p # ps) None P
     = Inr (case P of None \<Rightarrow> p | Some [] \<Rightarrow> p | Some (x # xs) \<Rightarrow> x)"
  by (simp add: Partitioner_partition_def split: option.split list.split)

text \<open>
  When \<open>get_key\<close> returns \<open>None\<close> and the URL parser and \<open>get_crc32\<close> return,
  \<open>request_data\<close> appends the error line to the log and returns the row with the first
  partition of the queue.
\<close>

lemma request_data_no_key:
  assumes key: "c_get_key c request = Inr None"
    and host: "c_hostname c (r_url request) = Inr hostname"
    and crc: "(case hostname of
                 None \<Rightarrow> Inr 0
               | Some h \<Rightarrow> if h = [] then Inr 0 else c_get_crc32 c h) = Inr host_crc32"
    and ps: "c_partitions c = p # ps"
  shows "request_data c fprint score request s
         = (Inr \<lparr>q_id = None, q_fingerprint = fprint, q_score = score,
                  q_url = r_url request, q_meta = r_meta request,
                  q_headers = r_headers request, q_cookies = r_cookies request,
                  q_method = Some (r_method request), q_partition_id = p,
                  q_host_crc32 = host_crc32,
                  q_created_at = s_clock s * 1000000 + s_micros s,
                  q_crawl_at = (case m_crawl_at (r_meta request) of
                                  Some t \<Rightarrow> t
                                | None \<Rightarrow> s_clock s)\<rparr>,
            s\<lparr>s_trace := s_trace s @ [LogError (r_url request) fprint]\<rparr>)"
  using key host crc ps by (simp add: request_data_def emit_def split: option.split)

text \<open>The URL is parsed at line 110 before the key is tested: what the parser raises leaves
  \<open>request_data\<close>, whatever the key is, and nothing is logged.\<close>

lemma request_data_parser_raises:
  assumes key: "c_get_key c request = Inr key"
    and host: "c_hostname c (r_url request) = Inl exc"
  shows "request_data c fprint score request s = (Inl exc, s)"
  using key host by (simp add: request_data_def)

text \<open>An empty URL has no key and the parser returns for it: the entry is stored in
  partition 0 and the error line is logged.\<close>

lemma sample_schedule_no_key:
  "c_get_key sample_conf ((sample_request (Some 0) None ''a'')\<lparr>r_url := []\<rparr>) = Inr None \<and>
   schedule sample_conf
     [(''a'', 9, (sample_request (Some 0) None ''a'')\<lparr>r_url := []\<rparr>, True)]
     (sample_state [] 100 [])
   = (Inr (),
      [(''a'', 9, (sample_request (Some 1) None ''a'')\<lparr>r_url := []\<rparr>, True)],
      (sample_state
         [(sample_row 1 ''a'' 9 0 100)\<lparr>q_url := [], q_created_at := 100000000\<rparr>]
         100 [])\<lparr>s_ops := 2, s_trace := [Attempt, LogError [] ''a'']\<rparr>)"
  by (simp add: schedule_def retry_and_rollback_def func_wrapper.simps schedule_body_def
        schedule_entry_def request_data_def Partitioner_partition_def partition_index_def
        HASH_MASK_def bulk_save_objects_def session_commit_def storage_op_def
        query_update_def save_object_def fresh_id_def row_id_def set_state_def QUEUED_def
        emit_def sample_conf_def sample_state_def sample_request_def sample_meta_def
        sample_row_def)

text \<open>
  Claim C9 on the code: \<open>get_key\<close> returns \<open>None\<close> for a request whose URL cannot be
  parsed, and \<open>request_data\<close> parses that URL at line 110, outside any \<open>try\<close>, before it
  reaches the fallback of lines 112 to 114. The \<open>ValueError\<close> of the parser leaves
  \<open>request_data\<close> and the body of \<open>schedule\<close>; the wrapper logs it, rolls back and waits,
  five times, and raises it. No error line of \<open>request_data\<close> is logged, no statement
  reaches the storage and no record is stored.
\<close>

theorem schedule_unparseable_url_raises:
  "c_get_key strict_conf unparseable_request = Inr None \<and>
   c_hostname strict_conf (r_url unparseable_request) = Inl ValueError \<and>
   c_partitions strict_conf = [0, 1] \<and>
   request_data strict_conf ''a'' 9 unparseable_request (sample_state [] 100 [])
     = (Inl ValueError, sample_state [] 100 []) \<and>
   schedule strict_conf [(''a'', 9, unparseable_request, True)] (sample_state [] 100 [])
     = (Inl ValueError,
        [(''a'', 9, unparseable_request, True)],
        (sample_state [] 100 [])
          \<lparr>s_clock := 125,
            s_trace :=
              [Attempt, LogException ValueError, Rollback, Sleep 5, LogInfo 4,
               Attempt, LogException ValueError, Rollback, Sleep 5, LogInfo 3,
               Attempt, LogException ValueError, Rollback, Sleep 5, LogInfo 2,
               Attempt, LogException ValueError, Rollback, Sleep 5, LogInfo 1,
               Attempt, LogException ValueError, Rollback, Sleep 5]\<rparr>)"
  by (simp add: schedule_def retry_and_rollback_def func_wrapper.simps schedule_body_def
        schedule_entry_def request_data_def session_rollback_def sleep_def emit_def
        strict_conf_def unmatched_bracket_def unparseable_request_def sample_state_def
        sample_meta_def)

end
